theory Spec2Isabelle
  imports Main "HOL-Library.Sublist" "HOL-Library.AList"
begin

section \<open>Strings of the host language\<close>

text \<open>
  A string is a list of code units. The model covers the code units below 256, one
  \<^typ>\<open>char\<close> each (Latin-1), so that \<open>length\<close> is the \<open>.length\<close> of the source and every
  \<^typ>\<open>string\<close> is a string the program can receive.
\<close>

definition code :: "char \<Rightarrow> nat" where
  "code c = of_char c"

text \<open>\<open>String.prototype.trim\<close> strips white space and line terminators: TAB, LF, VT, FF, CR,
  SP and NBSP are the ones below 256.\<close>

definition isWhiteSpace :: "char \<Rightarrow> bool" where
  "isWhiteSpace c = (code c = 9 \<or> code c = 10 \<or> code c = 11 \<or> code c = 12 \<or> code c = 13
     \<or> code c = 32 \<or> code c = 160)"

definition trim :: "string \<Rightarrow> string" where
  "trim s = rev (dropWhile isWhiteSpace (rev (dropWhile isWhiteSpace s)))"

text \<open>\<open>s.split(sep)\<close> for a one-character separator: never the empty array.\<close>

fun split :: "char \<Rightarrow> string \<Rightarrow> string list" where
  "split sep [] = [[]]"
| "split sep (c # cs) =
     (if c = sep then [] # split sep cs
      else (case split sep cs of [] \<Rightarrow> [[c]] | l # ls \<Rightarrow> (c # l) # ls))"

text \<open>\<open>xs.join(sep)\<close>.\<close>

fun join :: "string \<Rightarrow> string list \<Rightarrow> string" where
  "join sep [] = []"
| "join sep [x] = x"
| "join sep (x # y # ys) = x @ sep @ join sep (y # ys)"

definition startsWith :: "string \<Rightarrow> string \<Rightarrow> bool" where
  "startsWith s p = (take (length p) s = p)"

definition endsWith :: "string \<Rightarrow> string \<Rightarrow> bool" where
  "endsWith s p = (length p \<le> length s \<and> drop (length s - length p) s = p)"

text \<open>\<open>s.substring(a, b)\<close>: both indices are clamped to the length and swapped when
  \<open>a > b\<close>; \<open>s.substring(a)\<close> runs to the end.\<close>

definition substring :: "string \<Rightarrow> nat \<Rightarrow> nat \<Rightarrow> string" where
  "substring s a b =
     (let a' = min a (length s); b' = min b (length s);
          lo = min a' b'; hi = max a' b'
      in take (hi - lo) (drop lo s))"

definition substringFrom :: "string \<Rightarrow> nat \<Rightarrow> string" where
  "substringFrom s a = substring s a (length s)"

text \<open>\<open>toLowerCase\<close> on the code units below 256: the ASCII capitals and the Latin-1
  capitals \<open>0xC0..0xDE\<close> without the multiplication sign \<open>0xD7\<close> move up by 32.\<close>

definition hasLowerCase :: "char \<Rightarrow> bool" where
  "hasLowerCase c =
     ((65 \<le> code c \<and> code c \<le> 90) \<or> (192 \<le> code c \<and> code c \<le> 222 \<and> code c \<noteq> 215))"

definition toLowerChar :: "char \<Rightarrow> char" where
  "toLowerChar c = (if hasLowerCase c then char_of (code c + 32) else c)"

definition toLowerCase :: "string \<Rightarrow> string" where
  "toLowerCase s = map toLowerChar s"

section \<open>Data model (types.ts)\<close>

datatype SourceType = consolidated | atomic

record Definition =
  phrase :: string
  aliases :: "string list"
  content :: string
  sourceFile :: string
  sourceType :: SourceType
  lineNumber :: "nat option"
  blockId :: "string option"

datatype DividerPattern = hyphens | both

text \<open>Reading \<open>lines[i]\<close> beyond the array gives \<open>undefined\<close>, and the \<open>.trim()\<close> that
  follows every such read in the parsers throws a \<open>TypeError\<close>.\<close>

datatype error = TypeError | IOError | FileNotFound | LineNumberNotFound

definition at :: "'a list \<Rightarrow> nat \<Rightarrow> error + 'a" where
  "at xs i = (if i < length xs then Inr (xs ! i) else Inl TypeError)"

section \<open>ConsolidatedParser.ts\<close>

definition isDivider :: "DividerPattern \<Rightarrow> string \<Rightarrow> bool" where
  "isDivider dividerPattern line =
     (if line = ''---'' then True
      else if dividerPattern = both \<and> line = ''___'' then True
      else False)"

definition isHeader :: "string \<Rightarrow> bool" where
  "isHeader line = (startsWith line ''# '' \<and> length line > 2)"

text \<open>The loop \<open>while (i < lines.length) { ... contentLines.push(line); i++ }\<close> of
  \<open>parseBlock\<close>; the result is the content lines and the index the loop stops at.\<close>

function contentLoop ::
  "DividerPattern \<Rightarrow> string list \<Rightarrow> nat \<Rightarrow> string list \<Rightarrow> error + (string list \<times> nat)" where
  "contentLoop dp lines i contentLines =
     (if i < length lines then
        (case at lines i of
           Inl e \<Rightarrow> Inl e
         | Inr line \<Rightarrow>
             if isDivider dp (trim line) then Inr (contentLines, i + 1)
             else if isHeader (trim line) then Inr (contentLines, i)
             else contentLoop dp lines (i + 1) (contentLines @ [line]))
      else Inr (contentLines, i))"
  by pat_completeness auto
termination
  by (relation "measure (\<lambda>(dp, lines, i, contentLines). length lines - i)") auto

declare contentLoop.simps [simp del]

record BlockResult =
  definition' :: "Definition option"
  endIndex :: nat

definition isBlank :: "string \<Rightarrow> bool" where
  "isBlank l = (trim l = [])"

definition parseAliases :: "string \<Rightarrow> string list" where
  "parseAliases nextLine =
     (let aliasText = substring nextLine 1 (length nextLine - 1)
      in filter (\<lambda>a. length a > 0) (map trim (split (CHR '','') aliasText)))"

definition parseBlock ::
  "DividerPattern \<Rightarrow> string list \<Rightarrow> nat \<Rightarrow> string \<Rightarrow> error + BlockResult" where
  "parseBlock dp lines startIndex filePath =
     (case at lines startIndex of
        Inl e \<Rightarrow> Inl e
      | Inr l \<Rightarrow>
          let phraseLine = trim l;
              phrase' = trim (substringFrom phraseLine 2)
          in if phrase' = [] then Inr \<lparr>definition' = None, endIndex = startIndex + 1\<rparr>
             else
               (case (if startIndex + 1 < length lines then
                        (case at lines (startIndex + 1) of
                           Inl e \<Rightarrow> Inl e
                         | Inr nl \<Rightarrow>
                             let nextLine = trim nl
                             in if startsWith nextLine ''*'' \<and> endsWith nextLine ''*''
                                   \<and> length nextLine > 2
                                then Inr (parseAliases nextLine, startIndex + 2)
                                else Inr ([], startIndex + 1))
                      else Inr ([], startIndex + 1)) of
                  Inl e \<Rightarrow> Inl e
                | Inr (aliases', i) \<Rightarrow>
                    (case contentLoop dp lines i [] of
                       Inl e \<Rightarrow> Inl e
                     | Inr (contentLines, i') \<Rightarrow>
                         let trimmed = rev (dropWhile isBlank (rev (dropWhile isBlank contentLines)));
                             content' = join ''\<newline>'' trimmed
                         in Inr \<lparr>definition' = Some
                                    \<lparr>phrase = phrase', aliases = aliases', content = content',
                                     sourceFile = filePath, sourceType = consolidated,
                                     lineNumber = Some (startIndex + 1), blockId = None\<rparr>,
                                  endIndex = i'\<rparr>)))"

text \<open>The inner loop of the front-matter skip:
  \<open>while (i < lines.length && lines[i].trim() !== '---') i++\<close>.\<close>

function skipFrontmatter :: "string list \<Rightarrow> nat \<Rightarrow> error + nat" where
  "skipFrontmatter lines i =
     (if i < length lines then
        (case at lines i of
           Inl e \<Rightarrow> Inl e
         | Inr l \<Rightarrow> if trim l \<noteq> ''---'' then skipFrontmatter lines (i + 1) else Inr i)
      else Inr i)"
  by pat_completeness auto
termination
  by (relation "measure (\<lambda>(lines, i). length lines - i)") auto

declare skipFrontmatter.simps [simp del]

lemma contentLoop_index:
  "contentLoop dp lines i acc = Inr (cl, j) \<Longrightarrow> i \<le> j"
proof (induction dp lines i acc rule: contentLoop.induct)
  case (1 dp lines i contentLines)
  note eq = contentLoop.simps [of dp lines i contentLines]
  show ?case
  proof (cases "i < length lines")
    case False
    with "1.prems" eq show ?thesis by simp
  next
    case True
    then have a: "at lines i = Inr (lines ! i)" by (simp add: at_def)
    show ?thesis
    proof (cases "isDivider dp (trim (lines ! i))")
      case True
      with \<open>i < length lines\<close> a "1.prems" eq show ?thesis by simp
    next
      case nd: False
      show ?thesis
      proof (cases "isHeader (trim (lines ! i))")
        case True
        with \<open>i < length lines\<close> a nd "1.prems" eq show ?thesis by simp
      next
        case False
        with \<open>i < length lines\<close> a nd "1.prems" eq
        have "contentLoop dp lines (i + 1) (contentLines @ [lines ! i]) = Inr (cl, j)" by simp
        with "1.IH"[OF \<open>i < length lines\<close> a nd False] show ?thesis by simp
      qed
    qed
  qed
qed

lemma parseBlock_endIndex:
  assumes "parseBlock dp lines i filePath = Inr r"
  shows "i < endIndex r"
proof (cases "trim (substringFrom (trim (lines ! i)) 2) = []")
  case True
  with assms show ?thesis
    by (auto simp: parseBlock_def at_def Let_def split: if_splits)
next
  case False
  from assms obtain l where l: "at lines i = Inr l"
    by (auto simp: parseBlock_def split: sum.splits)
  then have l': "l = lines ! i" by (auto simp: at_def split: if_splits)
  from assms l l' False
  have "\<exists>cl j. (contentLoop dp lines (i + 1) [] = Inr (cl, j)
            \<or> contentLoop dp lines (i + 2) [] = Inr (cl, j)) \<and> endIndex r = j"
    by (auto simp: parseBlock_def Let_def split: sum.splits if_splits prod.splits)
  then obtain cl j where
    c: "contentLoop dp lines (i + 1) [] = Inr (cl, j)
        \<or> contentLoop dp lines (i + 2) [] = Inr (cl, j)" and r: "endIndex r = j"
    by blast
  from c have "i + 1 \<le> j" by (auto dest: contentLoop_index)
  with r show ?thesis by simp
qed

lemma skipFrontmatter_index:
  "skipFrontmatter lines i = Inr j \<Longrightarrow> i \<le> j"
proof (induction lines i rule: skipFrontmatter.induct)
  case (1 lines i)
  note eq = skipFrontmatter.simps [of lines i]
  show ?case
  proof (cases "i < length lines \<and> trim (lines ! i) \<noteq> ''---''")
    case True
    with "1.prems" eq have "skipFrontmatter lines (i + 1) = Inr j" by (simp add: at_def)
    with "1.IH"[of "lines ! i"] True show ?thesis by (simp add: at_def)
  next
    case False
    with "1.prems" eq show ?thesis by (auto simp: at_def split: if_splits)
  qed
qed

text \<open>The main loop of \<open>parse\<close>.\<close>

function parseLoop ::
  "DividerPattern \<Rightarrow> string list \<Rightarrow> string \<Rightarrow> nat \<Rightarrow> Definition list \<Rightarrow> error + Definition list" where
  "parseLoop dp lines filePath i definitions =
     (if i < length lines then
        (case at lines i of
           Inl e \<Rightarrow> Inl e
         | Inr l \<Rightarrow>
             if i = 0 \<and> trim l = ''---'' then
               (case skipFrontmatter lines (i + 1) of
                  Inl e \<Rightarrow> Inl e
                | Inr j \<Rightarrow> parseLoop dp lines filePath (j + 1) definitions)
             else if isHeader (trim l) then
               (case parseBlock dp lines i filePath of
                  Inl e \<Rightarrow> Inl e
                | Inr result \<Rightarrow>
                    parseLoop dp lines filePath (endIndex result)
                      (case definition' result of
                         Some d \<Rightarrow> definitions @ [d]
                       | None \<Rightarrow> definitions))
             else parseLoop dp lines filePath (i + 1) definitions)
      else Inr definitions)"
  by pat_completeness auto
termination
proof (relation "measure (\<lambda>(dp, lines, filePath, i, definitions). length lines - i)")
  show "wf (measure (\<lambda>(dp, lines, filePath, i, definitions). length lines - i))" by simp
next
  fix dp :: DividerPattern and lines :: "string list" and filePath :: string and i :: nat
    and definitions :: "Definition list" and l :: string and j :: nat
  assume "i < length lines" "skipFrontmatter lines (i + 1) = Inr j"
  then show "((dp, lines, filePath, j + 1, definitions), (dp, lines, filePath, i, definitions))
      \<in> measure (\<lambda>(dp, lines, filePath, i, definitions). length lines - i)"
    by (auto dest: skipFrontmatter_index)
next
  fix dp :: DividerPattern and lines :: "string list" and filePath :: string and i :: nat
    and definitions :: "Definition list" and result :: BlockResult
  assume "i < length lines" "parseBlock dp lines i filePath = Inr result"
  then show "((dp, lines, filePath, endIndex result,
        case definition' result of None \<Rightarrow> definitions | Some d \<Rightarrow> definitions @ [d]),
       (dp, lines, filePath, i, definitions))
      \<in> measure (\<lambda>(dp, lines, filePath, i, definitions). length lines - i)"
    by (auto dest: parseBlock_endIndex)
next
  fix dp :: DividerPattern and lines :: "string list" and filePath :: string and i :: nat
    and definitions :: "Definition list"
  assume "i < length lines"
  then show "((dp, lines, filePath, i + 1, definitions), (dp, lines, filePath, i, definitions))
      \<in> measure (\<lambda>(dp, lines, filePath, i, definitions). length lines - i)"
    by auto
qed

declare parseLoop.simps [simp del]

definition parse :: "DividerPattern \<Rightarrow> string \<Rightarrow> string \<Rightarrow> error + Definition list" where
  "parse dp content' filePath = parseLoop dp (split (CHR ''\<newline>'') content') filePath 0 []"

section \<open>DefinitionManager.ts: the cache\<close>

text \<open>
  A \<open>Map\<close> of the source keeps its keys in insertion order and holds each key once: it is an
  association list, \<open>Map.get\<close> is \<^const>\<open>map_of\<close>, \<open>Map.set\<close> is \<^const>\<open>AList.update\<close> (an
  existing key keeps its place, a new one goes to the end) and \<open>Map.delete\<close> is
  \<^const>\<open>AList.delete\<close>.
\<close>

record DefinitionCache =
  definitions :: "(string \<times> Definition list) list"
  fileIndex :: "(string \<times> string list) list"
  lastUpdate :: nat

definition emptyCache :: DefinitionCache where
  "emptyCache = \<lparr>definitions = [], fileIndex = [], lastUpdate = 0\<rparr>"

definition clearCache :: "nat \<Rightarrow> DefinitionCache \<Rightarrow> DefinitionCache" where
  "clearCache now c = \<lparr>definitions = [], fileIndex = [], lastUpdate = now\<rparr>"

text \<open>\<open>if (!m.has(k)) m.set(k, []); m.get(k)!.push(v)\<close>.\<close>

definition pushAt :: "string \<Rightarrow> 'a \<Rightarrow> (string \<times> 'a list) list \<Rightarrow> (string \<times> 'a list) list" where
  "pushAt k v m =
     (let m' = (if map_of m k = None then AList.update k [] m else m)
      in case map_of m' k of
           Some vs \<Rightarrow> AList.update k (vs @ [v]) m'
         | None \<Rightarrow> m')"

definition addToCache :: "Definition \<Rightarrow> DefinitionCache \<Rightarrow> DefinitionCache" where
  "addToCache d c =
     (let normalizedPhrase = toLowerCase (phrase d);
          defs1 = pushAt normalizedPhrase d (definitions c);
          defs2 = fold (\<lambda>alias m. pushAt (toLowerCase alias) d m) (aliases d) defs1;
          files = pushAt (sourceFile d) (phrase d) (fileIndex c)
      in c\<lparr>definitions := defs2, fileIndex := files\<rparr>)"

definition removeFromCache :: "string \<Rightarrow> DefinitionCache \<Rightarrow> DefinitionCache" where
  "removeFromCache filePath c =
     (case map_of (fileIndex c) filePath of
        None \<Rightarrow> c
      | Some phrases \<Rightarrow>
          let defs1 = fold (\<lambda>(key, defs) m.
                         AList.update key (filter (\<lambda>d. sourceFile d \<noteq> filePath) defs) m)
                       (definitions c) (definitions c);
              defs2 = fold (\<lambda>(key, defs) m. if length defs = 0 then AList.delete key m else m)
                       defs1 defs1
          in c\<lparr>definitions := defs2, fileIndex := AList.delete filePath (fileIndex c)\<rparr>)"

text \<open>The optional parameter \<open>contextFiles?: string[]\<close> is \<open>None\<close> when it is left out.\<close>

definition hasContext :: "string list option \<Rightarrow> bool" where
  "hasContext contextFiles = (case contextFiles of None \<Rightarrow> False | Some fs \<Rightarrow> length fs > 0)"

definition inContext :: "string list option \<Rightarrow> Definition \<Rightarrow> bool" where
  "inContext contextFiles d =
     (case contextFiles of None \<Rightarrow> False | Some fs \<Rightarrow> sourceFile d \<in> set fs)"

definition getDefinition :: "DefinitionCache \<Rightarrow> string \<Rightarrow> string list option \<Rightarrow> Definition option" where
  "getDefinition c phrase' contextFiles =
     (let normalized = toLowerCase phrase' in
      case map_of (definitions c) normalized of
        None \<Rightarrow> None
      | Some defs \<Rightarrow>
          if length defs = 0 then None
          else if hasContext contextFiles then
            (let filtered = filter (inContext contextFiles) defs
             in if length filtered > 0 then Some (filtered ! 0) else None)
          else Some (defs ! 0))"

definition getDefinitions :: "DefinitionCache \<Rightarrow> string \<Rightarrow> string list option \<Rightarrow> Definition list" where
  "getDefinitions c phrase' contextFiles =
     (let normalized = toLowerCase phrase' in
      case map_of (definitions c) normalized of
        None \<Rightarrow> []
      | Some defs \<Rightarrow>
          if length defs = 0 then []
          else if hasContext contextFiles then filter (inContext contextFiles) defs
          else defs)"

text \<open>The key \<open>`${def.sourceFile}:${def.phrase}`\<close> of the \<open>seen\<close> set.\<close>

definition seenKey :: "Definition \<Rightarrow> string" where
  "seenKey d = sourceFile d @ '':'' @ phrase d"

text \<open>One pass of the inner loop body of \<open>getAllDefinitions\<close>, on the pair of \<open>seen\<close> and
  \<open>allDefs\<close>.\<close>

definition collectDef ::
  "string list option \<Rightarrow> Definition \<Rightarrow> string list \<times> Definition list \<Rightarrow> string list \<times> Definition list" where
  "collectDef contextFiles d st =
     (case st of (seen, allDefs) \<Rightarrow>
        let key = seenKey d in
        if key \<in> set seen then (seen, allDefs)
        else if hasContext contextFiles then
          (if inContext contextFiles d then (key # seen, allDefs @ [d]) else (key # seen, allDefs))
        else (key # seen, allDefs @ [d]))"

definition getAllDefinitions :: "DefinitionCache \<Rightarrow> string list option \<Rightarrow> Definition list" where
  "getAllDefinitions c contextFiles =
     snd (fold (\<lambda>(key, defs) st. fold (collectDef contextFiles) defs st) (definitions c) ([], []))"

definition getAllPhrases :: "DefinitionCache \<Rightarrow> string list option \<Rightarrow> string list" where
  "getAllPhrases c contextFiles =
     fold (\<lambda>d phrases.
            fold (\<lambda>p ps. if p \<in> set ps then ps else ps @ [p]) (phrase d # aliases d) phrases)
       (getAllDefinitions c contextFiles) []"

definition isDefinitionFile :: "DefinitionCache \<Rightarrow> string \<Rightarrow> bool" where
  "isDefinitionFile c filePath = (map_of (fileIndex c) filePath \<noteq> None)"

text \<open>The cache states the program can be in: it starts empty and changes through
  \<open>addToCache\<close>, \<open>removeFromCache\<close> and \<open>clearCache\<close>; \<open>loadDefinitions\<close> also stamps
  \<open>lastUpdate\<close>.\<close>

inductive reachable :: "DefinitionCache \<Rightarrow> bool" where
  init: "reachable emptyCache"
| add: "reachable c \<Longrightarrow> reachable (addToCache d c)"
| remove: "reachable c \<Longrightarrow> reachable (removeFromCache filePath c)"
| clear: "reachable c \<Longrightarrow> reachable (clearCache now c)"
| stamp: "reachable c \<Longrightarrow> reachable (c\<lparr>lastUpdate := now\<rparr>)"

section \<open>DefinitionManager.ts: file events\<close>

definition isInDefinitionFolder :: "string \<Rightarrow> string \<Rightarrow> bool" where
  "isInDefinitionFolder definitionFolder filePath =
     (if definitionFolder = [] then False else startsWith filePath definitionFolder)"

text \<open>
  The manager, as far as the event handlers go: the configured folder, the cache and the
  path of the file the pending debounce timer will reload. \<open>load p\<close> stands for the
  definitions \<open>loadDefinitionFile\<close> reads and parses from the file at \<open>p\<close> (none when
  reading fails).
\<close>

record Manager =
  definitionFolder :: string
  cache :: DefinitionCache
  fileWatcherDebounceTimer :: "string option"

definition reloadFile :: "(string \<Rightarrow> Definition list) \<Rightarrow> string \<Rightarrow> Manager \<Rightarrow> Manager" where
  "reloadFile load filePath m =
     m\<lparr>cache := fold addToCache (load filePath) (removeFromCache filePath (cache m))\<rparr>"

definition onFileChange :: "string \<Rightarrow> Manager \<Rightarrow> Manager" where
  "onFileChange filePath m =
     (if \<not> isInDefinitionFolder (definitionFolder m) filePath then m
      else m\<lparr>fileWatcherDebounceTimer := Some filePath\<rparr>)"

definition onFileDelete :: "string \<Rightarrow> Manager \<Rightarrow> Manager" where
  "onFileDelete filePath m =
     (if \<not> isInDefinitionFolder (definitionFolder m) filePath then m
      else m\<lparr>cache := removeFromCache filePath (cache m)\<rparr>)"

definition onFileRename ::
  "(string \<Rightarrow> Definition list) \<Rightarrow> string \<Rightarrow> string \<Rightarrow> Manager \<Rightarrow> Manager" where
  "onFileRename load filePath oldPath m =
     (if \<not> isInDefinitionFolder (definitionFolder m) oldPath
         \<and> \<not> isInDefinitionFolder (definitionFolder m) filePath then m
      else
        let m' = m\<lparr>cache := removeFromCache oldPath (cache m)\<rparr>
        in if isInDefinitionFolder (definitionFolder m) filePath then reloadFile load filePath m'
           else m')"

section \<open>EditorManager.ts: findPhrases\<close>

record PhraseMatch =
  mphrase :: string
  mfrom :: nat
  mto :: nat

text \<open>
  The regular expression is \<open>new RegExp(`\\b${escaped}\\b`, 'gi')\<close>, where \<open>escaped\<close> is the
  phrase with a backslash before every character the pattern syntax gives a meaning to,
  so that it matches the characters of the phrase one by one. Under the \<open>i\<close> flag two code
  units match when they have the same canonical form, the upper-case one: below 256 the
  small letters \<open>a..z\<close> and \<open>0xE0..0xFE\<close> without the division sign \<open>0xF7\<close> move down by 32
  (the upper-case forms of \<open>0xB5\<close> and \<open>0xFF\<close> lie above 255 and that of \<open>0xDF\<close> is two
  letters, so each of them matches itself only). \<open>\\b\<close> holds between a word character
  \<open>[A-Za-z0-9_]\<close> and a character that is not one, the ends of the text counting as the
  latter.
\<close>

definition hasUpperCase :: "char \<Rightarrow> bool" where
  "hasUpperCase c =
     ((97 \<le> code c \<and> code c \<le> 122) \<or> (224 \<le> code c \<and> code c \<le> 254 \<and> code c \<noteq> 247))"

definition canonicalize :: "char \<Rightarrow> char" where
  "canonicalize c = (if hasUpperCase c then char_of (code c - 32) else c)"

definition isWordChar :: "char \<Rightarrow> bool" where
  "isWordChar c =
     ((48 \<le> code c \<and> code c \<le> 57) \<or> (65 \<le> code c \<and> code c \<le> 90) \<or> code c = 95
      \<or> (97 \<le> code c \<and> code c \<le> 122))"

definition wordBefore :: "string \<Rightarrow> nat \<Rightarrow> bool" where
  "wordBefore text i = (0 < i \<and> i \<le> length text \<and> isWordChar (text ! (i - 1)))"

definition wordAfter :: "string \<Rightarrow> nat \<Rightarrow> bool" where
  "wordAfter text i = (i < length text \<and> isWordChar (text ! i))"

definition boundary :: "string \<Rightarrow> nat \<Rightarrow> bool" where
  "boundary text i = (wordBefore text i \<noteq> wordAfter text i)"

text \<open>The pattern matches at index \<open>i\<close>; the match is then as long as the phrase.\<close>

definition matchesAt :: "string \<Rightarrow> string \<Rightarrow> nat \<Rightarrow> bool" where
  "matchesAt text phrase' i =
     (i + length phrase' \<le> length text
      \<and> boundary text i
      \<and> map canonicalize (take (length phrase') (drop i text)) = map canonicalize phrase'
      \<and> boundary text (i + length phrase'))"

text \<open>\<open>regex.exec(text)\<close> with the \<open>g\<close> flag: the first index from \<open>lastIndex\<close> on where the
  pattern matches, or \<open>null\<close>.\<close>

definition regexExec :: "string \<Rightarrow> string \<Rightarrow> nat \<Rightarrow> nat option" where
  "regexExec text phrase' lastIndex =
     find (matchesAt text phrase') [lastIndex ..< length text + 1]"

definition overlaps :: "nat \<Rightarrow> nat \<Rightarrow> PhraseMatch list \<Rightarrow> bool" where
  "overlaps from' to' matches =
     list_ex (\<lambda>m. (from' \<ge> mfrom m \<and> from' < mto m) \<or> (to' > mfrom m \<and> to' \<le> mto m)) matches"

definition acceptMatch :: "string \<Rightarrow> string \<Rightarrow> nat \<Rightarrow> PhraseMatch list \<Rightarrow> PhraseMatch list" where
  "acceptMatch text phrase' from' matches =
     (let to' = from' + length phrase' in
      if \<not> overlaps from' to' matches
      then matches @ [\<lparr>mphrase = take (length phrase') (drop from' text), mfrom = from', mto = to'\<rparr>]
      else matches)"

text \<open>
  The loop \<open>while ((match = regex.exec(text)) !== null) { ... }\<close>. \<open>exec\<close> leaves \<open>lastIndex\<close>
  at the end of the match it returns, and the loop does not move it: it may run forever,
  which is the value \<open>None\<close>.
\<close>

partial_function (option) execLoop ::
  "string \<Rightarrow> string \<Rightarrow> nat \<Rightarrow> PhraseMatch list \<Rightarrow> PhraseMatch list option" where
  "execLoop text phrase' lastIndex matches =
     (case regexExec text phrase' lastIndex of
        None \<Rightarrow> Some matches
      | Some from' \<Rightarrow>
          execLoop text phrase' (from' + length phrase') (acceptMatch text phrase' from' matches))"

declare execLoop.simps [code]

fun phrasesLoop :: "string \<Rightarrow> string list \<Rightarrow> PhraseMatch list \<Rightarrow> PhraseMatch list option" where
  "phrasesLoop text [] matches = Some matches"
| "phrasesLoop text (p # ps) matches =
     (case execLoop text p 0 matches of
        None \<Rightarrow> None
      | Some matches' \<Rightarrow> phrasesLoop text ps matches')"

text \<open>\<open>Array.prototype.sort\<close> is stable, as \<^const>\<open>sort_key\<close> is.\<close>

definition sortByLengthDesc :: "string list \<Rightarrow> string list" where
  "sortByLengthDesc phrases = sort_key (\<lambda>p. - int (length p)) phrases"

definition findPhrases :: "string \<Rightarrow> string list \<Rightarrow> PhraseMatch list option" where
  "findPhrases text phrases =
     (case phrasesLoop text (sortByLengthDesc phrases) [] of
        None \<Rightarrow> None
      | Some matches \<Rightarrow> Some (sort_key mfrom matches))"

section \<open>UIManager.ts: the write paths\<close>

text \<open>
  The vault of the host holds the documents. Every call into the host (\<open>vault.read\<close>,
  \<open>vault.modify\<close>, \<open>fileManager.processFrontMatter\<close>, \<open>fileManager.renameFile\<close>) either
  succeeds with its whole effect or throws and leaves the documents as they are; the calls
  are counted, and \<open>failing\<close> lists the calls that throw. An exception ends the write path
  it is thrown in, so a write path returns its error or its result, and the vault.
\<close>

record Vault =
  files :: "(string \<times> string) list"
  calls :: nat
  failing :: "nat list"

definition hostFails :: "Vault \<Rightarrow> bool" where
  "hostFails v = (calls v \<in> set (failing v))"

definition tick :: "Vault \<Rightarrow> Vault" where
  "tick v = v\<lparr>calls := calls v + 1\<rparr>"

definition vaultRead :: "string \<Rightarrow> Vault \<Rightarrow> (error + string) \<times> Vault" where
  "vaultRead path v =
     (if hostFails v then (Inl IOError, tick v)
      else case map_of (files v) path of
             None \<Rightarrow> (Inl IOError, tick v)
           | Some c \<Rightarrow> (Inr c, tick v))"

definition vaultModify :: "string \<Rightarrow> string \<Rightarrow> Vault \<Rightarrow> (error + unit) \<times> Vault" where
  "vaultModify path data v =
     (if hostFails v \<or> map_of (files v) path = None then (Inl IOError, tick v)
      else (Inr (), tick (v\<lparr>files := AList.update path data (files v)\<rparr>)))"

text \<open>\<open>processFrontMatter(file, fn)\<close>: the host parses the front matter, runs the callback on
  it and writes the document back; \<open>edit\<close> is what that does to the content.\<close>

definition processFrontMatter :: "string \<Rightarrow> (string \<Rightarrow> string) \<Rightarrow> Vault \<Rightarrow> (error + unit) \<times> Vault" where
  "processFrontMatter path edit v =
     (if hostFails v then (Inl IOError, tick v)
      else case map_of (files v) path of
             None \<Rightarrow> (Inl IOError, tick v)
           | Some c \<Rightarrow> (Inr (), tick (v\<lparr>files := AList.update path (edit c) (files v)\<rparr>)))"

definition renameFile :: "string \<Rightarrow> string \<Rightarrow> Vault \<Rightarrow> (error + unit) \<times> Vault" where
  "renameFile path newPath v =
     (if hostFails v \<or> map_of (files v) newPath \<noteq> None then (Inl IOError, tick v)
      else case map_of (files v) path of
             None \<Rightarrow> (Inl IOError, tick v)
           | Some c \<Rightarrow>
               (Inr (), tick (v\<lparr>files := AList.update newPath c (AList.delete path (files v))\<rparr>)))"

text \<open>\<open>s.replace(pattern, replacement)\<close> with a string pattern: the first occurrence is
  replaced, and \<open>$$\<close>, \<open>$&\<close>, \<open>$`\<close> and \<open>$'\<close> in the replacement stand for a dollar sign, the
  match, the text before it and the text after it.\<close>

fun getSubstitution :: "string \<Rightarrow> string \<Rightarrow> string \<Rightarrow> string \<Rightarrow> string" where
  "getSubstitution matched pre post [] = []"
| "getSubstitution matched pre post [c] = [c]"
| "getSubstitution matched pre post (c # d # r) =
     (if c = CHR ''$'' \<and> d = CHR ''$'' then CHR ''$'' # getSubstitution matched pre post r
      else if c = CHR ''$'' \<and> d = CHR ''&'' then matched @ getSubstitution matched pre post r
      else if c = CHR ''$'' \<and> d = CHR 0x60 then pre @ getSubstitution matched pre post r
      else if c = CHR ''$'' \<and> d = CHR 0x27 then post @ getSubstitution matched pre post r
      else c # getSubstitution matched pre post (d # r))"

definition replace :: "string \<Rightarrow> string \<Rightarrow> string \<Rightarrow> string" where
  "replace s pattern replacement =
     (case find (\<lambda>i. take (length pattern) (drop i s) = pattern) [0 ..< length s + 1] of
        None \<Rightarrow> s
      | Some i \<Rightarrow>
          take i s
          @ getSubstitution pattern (take i s) (drop (i + length pattern) s) replacement
          @ drop (i + length pattern) s)"

text \<open>\<open>file.name\<close>: the last segment of \<open>file.path\<close>.\<close>

definition fileName :: "string \<Rightarrow> string" where
  "fileName path = last (split (CHR ''/'') path)"

definition appendToConsolidatedFile ::
  "string \<Rightarrow> string \<Rightarrow> string list \<Rightarrow> string \<Rightarrow> Vault \<Rightarrow> (error + unit) \<times> Vault" where
  "appendToConsolidatedFile filePath phrase' aliases' content' v =
     (if map_of (files v) filePath = None then (Inl FileNotFound, v)
      else case vaultRead filePath v of
             (Inl e, v1) \<Rightarrow> (Inl e, v1)
           | (Inr existingContent, v1) \<Rightarrow>
               let newBlock = ''\<newline># '' @ phrase' @ ''\<newline>'';
                   newBlock = (if length aliases' > 0
                               then newBlock @ ''\<newline>*'' @ join '', '' aliases' @ ''*\<newline>''
                               else newBlock);
                   newBlock = newBlock @ ''\<newline>'' @ content' @ ''\<newline>\<newline>---\<newline>''
               in vaultModify filePath (existingContent @ newBlock) v1)"

text \<open>The loop that looks for the end of a block, in \<open>updateConsolidatedDefinition\<close> and
  \<open>deleteConsolidatedDefinition\<close>.\<close>

function findBlockEnd :: "string list \<Rightarrow> nat \<Rightarrow> error + nat" where
  "findBlockEnd lines endLine =
     (if endLine < length lines then
        (case at lines endLine of
           Inl e \<Rightarrow> Inl e
         | Inr l \<Rightarrow>
             let line = trim l
             in if line = ''---'' \<or> line = ''___'' \<or> isHeader line then Inr endLine
                else findBlockEnd lines (endLine + 1))
      else Inr endLine)"
  by pat_completeness auto
termination
  by (relation "measure (\<lambda>(lines, endLine). length lines - endLine)") auto

declare findBlockEnd.simps [simp del]

definition missingLineNumber :: "Definition \<Rightarrow> bool" where
  "missingLineNumber d = (case lineNumber d of None \<Rightarrow> True | Some n \<Rightarrow> n = 0)"

definition updateConsolidatedDefinition ::
  "string \<Rightarrow> Definition \<Rightarrow> string \<Rightarrow> string list \<Rightarrow> string \<Rightarrow> Vault \<Rightarrow> (error + unit) \<times> Vault" where
  "updateConsolidatedDefinition file d newPhrase newAliases newContent v =
     (case vaultRead file v of
        (Inl e, v1) \<Rightarrow> (Inl e, v1)
      | (Inr content', v1) \<Rightarrow>
          let lines = split (CHR ''\<newline>'') content' in
          if missingLineNumber d then (Inl LineNumberNotFound, v1)
          else
            let startLine = the (lineNumber d) - 1 in
            case findBlockEnd lines (startLine + 1) of
              Inl e \<Rightarrow> (Inl e, v1)
            | Inr endLine \<Rightarrow>
                let newBlock = ''# '' @ newPhrase;
                    newBlock = (if length newAliases > 0
                                then newBlock @ ''\<newline>\<newline>*'' @ join '', '' newAliases @ ''*''
                                else newBlock);
                    newBlock = newBlock @ ''\<newline>\<newline>'' @ newContent;
                    newLines = take startLine lines @ [newBlock] @ drop endLine lines
                in vaultModify file (join ''\<newline>'' newLines) v1)"

definition deleteConsolidatedDefinition ::
  "string \<Rightarrow> Definition \<Rightarrow> Vault \<Rightarrow> (error + unit) \<times> Vault" where
  "deleteConsolidatedDefinition file d v =
     (case vaultRead file v of
        (Inl e, v1) \<Rightarrow> (Inl e, v1)
      | (Inr content', v1) \<Rightarrow>
          let lines = split (CHR ''\<newline>'') content' in
          if missingLineNumber d then (Inl LineNumberNotFound, v1)
          else
            let startLine = the (lineNumber d) - 1 in
            case findBlockEnd lines (startLine + 1) of
              Inl e \<Rightarrow> (Inl e, v1)
            | Inr endLine \<Rightarrow>
                (case (if endLine < length lines
                       then (case at lines endLine of
                               Inl e \<Rightarrow> Inl e
                             | Inr l \<Rightarrow> if trim l = ''---'' \<or> trim l = ''___''
                                        then Inr (endLine + 1) else Inr endLine)
                       else Inr endLine) of
                   Inl e \<Rightarrow> (Inl e, v1)
                 | Inr endLine' \<Rightarrow>
                     let newLines = take startLine lines @ drop endLine' lines
                     in vaultModify file (join ''\<newline>'' newLines) v1))"

text \<open>The first loop of \<open>updateAtomicDefinition\<close>: the index after the line that closes the
  front matter, or 0.\<close>

function findContentStart :: "string list \<Rightarrow> nat \<Rightarrow> error + nat" where
  "findContentStart lines i =
     (if i < length lines then
        (case at lines i of
           Inl e \<Rightarrow> Inl e
         | Inr l \<Rightarrow> if trim l = ''---'' then Inr (i + 1) else findContentStart lines (i + 1))
      else Inr 0)"
  by pat_completeness auto
termination
  by (relation "measure (\<lambda>(lines, i). length lines - i)") auto

declare findContentStart.simps [simp del]

text \<open>\<open>setAliases as\<close> is what the host's \<open>processFrontMatter\<close> makes of the content under the
  callback of \<open>updateAtomicDefinition\<close>: the \<open>aliases\<close> key of the front matter set to \<open>as\<close>,
  or deleted when \<open>as\<close> is empty.\<close>

definition updateAtomicDefinition ::
  "(string list \<Rightarrow> string \<Rightarrow> string) \<Rightarrow> string \<Rightarrow> Definition \<Rightarrow> string \<Rightarrow> string list \<Rightarrow> string
     \<Rightarrow> Vault \<Rightarrow> (error + unit) \<times> Vault" where
  "updateAtomicDefinition setAliases file d newPhrase newAliases newContent v =
     (case processFrontMatter file (setAliases newAliases) v of
        (Inl e, v1) \<Rightarrow> (Inl e, v1)
      | (Inr u, v1) \<Rightarrow>
          (case vaultRead file v1 of
             (Inl e, v2) \<Rightarrow> (Inl e, v2)
           | (Inr content', v2) \<Rightarrow>
               let lines = split (CHR ''\<newline>'') content' in
               case (case at lines 0 of
                       Inl e \<Rightarrow> Inl e
                     | Inr l \<Rightarrow> if trim l = ''---'' then findContentStart lines 1 else Inr 0) of
                 Inl e \<Rightarrow> (Inl e, v2)
               | Inr contentStart \<Rightarrow>
                   let frontmatterLines = take contentStart lines;
                       newLines = frontmatterLines @ ['''', newContent]
                   in case vaultModify file (join ''\<newline>'' newLines) v2 of
                        (Inl e, v3) \<Rightarrow> (Inl e, v3)
                      | (Inr u, v3) \<Rightarrow>
                          if newPhrase \<noteq> phrase d
                          then renameFile file (replace file (fileName file) (newPhrase @ ''.md'')) v3
                          else (Inr (), v3)))"

section \<open>Properties of matches\<close>

text \<open>Two spans share no character.\<close>

definition disjointSpans :: "PhraseMatch \<Rightarrow> PhraseMatch \<Rightarrow> bool" where
  "disjointSpans a b = (mto a \<le> mfrom b \<or> mto b \<le> mfrom a)"

text \<open>A match is the non-empty piece of the text between its offsets, and that piece,
  lowercased, is the lowercased form of a phrase of \<open>P\<close>.\<close>

definition wellFormed :: "string \<Rightarrow> string list \<Rightarrow> PhraseMatch \<Rightarrow> bool" where
  "wellFormed t P m =
     (mphrase m \<noteq> [] \<and> mto m = mfrom m + length (mphrase m) \<and> mto m \<le> length t
      \<and> mphrase m = take (length (mphrase m)) (drop (mfrom m) t)
      \<and> toLowerCase (mphrase m) \<in> toLowerCase ` set P)"

text \<open>The invariant of the scan: the accepted matches are well formed, at least \<open>n\<close> long,
  and no two of them share a character.\<close>

definition scanInv :: "string \<Rightarrow> string list \<Rightarrow> nat \<Rightarrow> PhraseMatch list \<Rightarrow> bool" where
  "scanInv t P n ms =
     ((\<forall>m\<in>set ms. wellFormed t P m \<and> n \<le> length (mphrase m)) \<and> distinct ms
      \<and> (\<forall>a\<in>set ms. \<forall>b\<in>set ms. a \<noteq> b \<longrightarrow> disjointSpans a b))"

text \<open>The match of the phrase \<open>p\<close> at the index \<open>i\<close> of the text.\<close>

definition matchOf :: "string \<Rightarrow> string \<Rightarrow> nat \<Rightarrow> PhraseMatch" where
  "matchOf t p i = \<lparr>mphrase = take (length p) (drop i t), mfrom = i, mto = i + length p\<rparr>"

text \<open>Every accepted match is the match of \<open>p\<close> at \<open>i\<close> or shares no character with it.\<close>

definition clearOf :: "string \<Rightarrow> string \<Rightarrow> nat \<Rightarrow> PhraseMatch list \<Rightarrow> bool" where
  "clearOf t p i ms =
     (\<forall>s\<in>set ms. s = matchOf t p i \<or> mto s \<le> i \<or> i + length p \<le> mfrom s)"

section \<open>Properties of the cache\<close>

text \<open>The list a map holds under a key, empty when the key is absent.\<close>

definition entries :: "(string \<times> 'a list) list \<Rightarrow> string \<Rightarrow> 'a list" where
  "entries m k = (case map_of m k of None \<Rightarrow> [] | Some vs \<Rightarrow> vs)"

text \<open>The keys a definition is stored under.\<close>

definition keysOf :: "Definition \<Rightarrow> string list" where
  "keysOf d = toLowerCase (phrase d) # map toLowerCase (aliases d)"

text \<open>What holds of every cache the program can be in.\<close>

definition cacheInv :: "DefinitionCache \<Rightarrow> bool" where
  "cacheInv c =
     (distinct (map fst (definitions c)) \<and> distinct (map fst (fileIndex c))
      \<and> (\<forall>k ds. map_of (definitions c) k = Some ds \<longrightarrow>
            ds \<noteq> [] \<and> (\<forall>d\<in>set ds. map_of (fileIndex c) (sourceFile d) \<noteq> None))
      \<and> (\<forall>f phs. map_of (fileIndex c) f = Some phs \<longrightarrow>
            (\<forall>ph\<in>set phs. \<exists>ds d. map_of (definitions c) (toLowerCase ph) = Some ds
                \<and> d \<in> set ds \<and> phrase d = ph \<and> sourceFile d = f)))"


section \<open>Example data\<close>

definition exampleDocument :: string where
  "exampleDocument = ''# Widget\<newline>*gadget*\<newline>\<newline>A small mechanical device.\<newline>\<newline>---\<newline>\<newline># Gizmo\<newline>\<newline>Another small device.''"

definition exampleBlocks :: "string \<Rightarrow> nat \<Rightarrow> Definition list" where
  "exampleBlocks filePath n =
     [\<lparr>phrase = ''Widget'', aliases = [''gadget''], content = ''A small mechanical device.'',
        sourceFile = filePath, sourceType = consolidated, lineNumber = Some 1, blockId = None\<rparr>,
      \<lparr>phrase = ''Gizmo'', aliases = [], content = ''Another small device.'',
        sourceFile = filePath, sourceType = consolidated, lineNumber = Some n, blockId = None\<rparr>]"

definition exampleDefinition :: Definition where
  "exampleDefinition = \<lparr>phrase = ''Widget'', aliases = [], content = ''A small device.'',
     sourceFile = ''a.md'', sourceType = consolidated, lineNumber = Some 1, blockId = None\<rparr>"

definition barMatch :: PhraseMatch where
  "barMatch = \<lparr>mphrase = ''-bar'', mfrom = 3, mto = 7\<rparr>"

definition fooMatch :: PhraseMatch where
  "fooMatch = \<lparr>mphrase = ''foo'', mfrom = 0, mto = 3\<rparr>"

definition atomicVault :: Vault where
  "atomicVault = \<lparr>files = [(''defs/CPU.md'', ''old'')], calls = 0, failing = [3]\<rparr>"

definition atomicDefinition :: Definition where
  "atomicDefinition = \<lparr>phrase = ''CPU'', aliases = [], content = ''old'',
     sourceFile = ''defs/CPU.md'', sourceType = atomic, lineNumber = None, blockId = None\<rparr>"

definition cpuDefinition :: Definition where
  "cpuDefinition = \<lparr>phrase = ''CPU'', aliases = [''Central Processing Unit''],
     content = ''The processor.'', sourceFile = ''defs/hardware.md'', sourceType = consolidated,
     lineNumber = Some 1, blockId = None\<rparr>"



definition chipDefinition :: Definition where
  "chipDefinition = \<lparr>phrase = ''Chip'', aliases = [''cpu''],
     content = ''An integrated circuit.'', sourceFile = ''defs/other.md'', sourceType = consolidated,
     lineNumber = Some 1, blockId = None\<rparr>"

definition twoFileCache :: DefinitionCache where
  "twoFileCache = addToCache chipDefinition (addToCache cpuDefinition emptyCache)"

definition colonFirst :: Definition where
  "colonFirst = \<lparr>phrase = ''b.md:c'', aliases = [], content = ''first'',
     sourceFile = ''defs/a.md'', sourceType = consolidated, lineNumber = Some 1, blockId = None\<rparr>"

definition colonSecond :: Definition where
  "colonSecond = \<lparr>phrase = ''c'', aliases = [], content = ''second'',
     sourceFile = ''defs/a.md:b.md'', sourceType = consolidated, lineNumber = Some 1, blockId = None\<rparr>"

definition unterminatedDocument :: string where
  "unterminatedDocument = ''---\<newline>title: x\<newline># A\<newline>body a\<newline># B\<newline>body b''"

definition twoBlockDocument :: string where
  "twoBlockDocument = ''# A\<newline>body a\<newline># B\<newline>body b''"

definition twoBlocks :: "string \<Rightarrow> Definition list" where
  "twoBlocks filePath =
     [\<lparr>phrase = ''A'', aliases = [], content = ''body a'', sourceFile = filePath,
        sourceType = consolidated, lineNumber = Some 1, blockId = None\<rparr>,
      \<lparr>phrase = ''B'', aliases = [], content = ''body b'', sourceFile = filePath,
        sourceType = consolidated, lineNumber = Some 3, blockId = None\<rparr>]"

definition keyedFirst :: Definition where
  "keyedFirst = \<lparr>phrase = ''X'', aliases = [''k2''], content = ''zero'',
     sourceFile = ''defs/b.md'', sourceType = consolidated, lineNumber = Some 1, blockId = None\<rparr>"

definition plainFoo :: Definition where
  "plainFoo = \<lparr>phrase = ''P'', aliases = [], content = ''one'',
     sourceFile = ''defs/a.md'', sourceType = consolidated, lineNumber = Some 1, blockId = None\<rparr>"

definition aliasedFoo :: Definition where
  "aliasedFoo = \<lparr>phrase = ''P'', aliases = [''k2''], content = ''two'',
     sourceFile = ''defs/a.md'', sourceType = consolidated, lineNumber = Some 5, blockId = None\<rparr>"

section \<open>The consolidated parser returns, and what it returns on the example\<close>

lemma contentLoop_total: "\<exists>r. contentLoop dp lines i acc = Inr r"
proof (induction dp lines i acc rule: contentLoop.induct)
  case (1 dp lines i contentLines)
  show ?case
    using "1.IH" by (subst contentLoop.simps) (auto simp: at_def)
qed

lemma skipFrontmatter_total: "\<exists>r. skipFrontmatter lines i = Inr r"
proof (induction lines i rule: skipFrontmatter.induct)
  case (1 lines i)
  show ?case
    using "1.IH" by (subst skipFrontmatter.simps) (auto simp: at_def)
qed

lemma parseBlock_total:
  assumes "i < length lines"
  shows "\<exists>r. parseBlock dp lines i filePath = Inr r"
proof -
  obtain r1 where "contentLoop dp lines (i + 1) [] = Inr r1"
    using contentLoop_total by blast
  moreover obtain r2 where "contentLoop dp lines (i + 2) [] = Inr r2"
    using contentLoop_total by blast
  ultimately show ?thesis using assms
    by (cases r1; cases r2) (auto simp: parseBlock_def at_def Let_def)
qed

lemma parseLoop_total: "\<exists>ds. parseLoop dp lines filePath i acc = Inr ds"
proof (induction dp lines filePath i acc rule: parseLoop.induct)
  case (1 dp lines filePath i definitions)
  show ?case
  proof (cases "i < length lines")
    case False
    then show ?thesis by (subst parseLoop.simps) simp
  next
    case True
    then have a: "at lines i = Inr (lines ! i)" by (simp add: at_def)
    obtain j where j: "skipFrontmatter lines (i + 1) = Inr j"
      using skipFrontmatter_total by blast
    obtain r where r: "parseBlock dp lines i filePath = Inr r"
      using parseBlock_total[OF True] by blast
    show ?thesis
    proof (cases "i = 0 \<and> trim (lines ! i) = ''---''")
      case fm: True
      from "1.IH"(1)[OF True a fm j] True a fm j show ?thesis
        by (subst parseLoop.simps) auto
    next
      case nfm: False
      show ?thesis
      proof (cases "isHeader (trim (lines ! i))")
        case h: True
        from "1.IH"(2)[OF True a nfm h r] True a nfm h r show ?thesis
          by (subst parseLoop.simps) auto
      next
        case nh: False
        from "1.IH"(3)[OF True a nfm nh] True a nfm nh show ?thesis
          by (subst parseLoop.simps) auto
      qed
    qed
  qed
qed

text \<open>
  For every content, every file path and both divider patterns, \<open>parse\<close> returns a list of
  definitions: it terminates (the model is a total function whose loops all have a
  termination proof) and no read of \<open>lines[i]\<close> is out of bounds, so that it never throws.
\<close>

lemma parse_never_throws: "\<exists>ds. parse dp content' filePath = Inr ds"
  unfolding parse_def by (rule parseLoop_total)

text \<open>
  When the first line is \<open>---\<close> and no later line is, the loop that skips the front matter
  runs to the end of the lines, and the \<open>i++\<close> after it, which is to skip the closing \<open>---\<close>,
  steps past the end: no block of the file is parsed.
\<close>

lemma skipFrontmatter_unterminated:
  assumes "i \<le> length lines" "\<forall>j. i \<le> j \<and> j < length lines \<longrightarrow> trim (lines ! j) \<noteq> ''---''"
  shows "skipFrontmatter lines i = Inr (length lines)"
  using assms
proof (induction lines i rule: skipFrontmatter.induct)
  case (1 lines i)
  show ?case
  proof (cases "i < length lines")
    case False
    with "1.prems"(1) show ?thesis by (subst skipFrontmatter.simps) simp
  next
    case True
    then have a: "at lines i = Inr (lines ! i)" by (simp add: at_def)
    from True "1.prems"(2) have n: "trim (lines ! i) \<noteq> ''---''" by simp
    from True "1.prems"(2)
    have "skipFrontmatter lines (i + 1) = Inr (length lines)"
      by (intro "1.IH"[OF True a n]) auto
    with True a n show ?thesis by (subst skipFrontmatter.simps) simp
  qed
qed

lemma parseLoop_unterminated:
  assumes "lines \<noteq> []" "trim (lines ! 0) = ''---''"
    and "\<forall>j. 1 \<le> j \<and> j < length lines \<longrightarrow> trim (lines ! j) \<noteq> ''---''"
  shows "parseLoop dp lines filePath 0 [] = Inr []"
proof -
  from assms(1) have l: "0 < length lines" "1 \<le> length lines" by (cases lines; simp)+
  then have a: "at lines 0 = Inr (lines ! 0)" by (simp add: at_def)
  have s: "skipFrontmatter lines (0 + 1) = Inr (length lines)"
    using skipFrontmatter_unterminated[of 1 lines] l(2) assms(3) by simp
  have e: "parseLoop dp lines filePath (length lines + 1) [] = Inr []"
    by (subst parseLoop.simps) simp
  show ?thesis
    using l(1) a assms(2) s e by (subst parseLoop.simps) simp
qed

text \<open>
  Claim C8 says that \<open>parse\<close> returns a list of definitions on every content without
  throwing, and that malformed content, an unterminated front matter among it, costs at
  most the malformed block while the remaining blocks still parse. \<open>parse\<close> does return on
  every content (\<open>parse_never_throws\<close>). But the remaining blocks do not parse after an
  unterminated front matter: the document of the two blocks \<open>A\<close> and \<open>B\<close> parses to both of
  them, and with the two lines \<open>---\<close> and \<open>title: x\<close> before them it parses to no definition
  at all, under both divider patterns and for every file path. The other readers of a
  front matter, \<open>getDefinitionType\<close> of the definition manager and \<open>extractFrontmatter\<close> and
  \<open>extractContent\<close> of the atomic parser, take a first line \<open>---\<close> without a closing line to
  open no front matter, and \<open>getDefinitionType\<close> sends such a file to this parser.
\<close>

theorem parse_unterminated_front_matter:
  "parse hyphens unterminatedDocument filePath = Inr []
   \<and> parse both unterminatedDocument filePath = Inr []
   \<and> unterminatedDocument = ''---\<newline>title: x\<newline>'' @ twoBlockDocument
   \<and> parse hyphens twoBlockDocument filePath = Inr (twoBlocks filePath)
   \<and> parse both twoBlockDocument filePath = Inr (twoBlocks filePath)"
proof -
  have "parse hyphens unterminatedDocument filePath = Inr []" by code_simp
  moreover have "parse both unterminatedDocument filePath = Inr []" by code_simp
  moreover have "unterminatedDocument = ''---\<newline>title: x\<newline>'' @ twoBlockDocument"
    by (simp add: unterminatedDocument_def twoBlockDocument_def)
  moreover have "parse hyphens twoBlockDocument filePath = Inr (twoBlocks filePath)" by code_simp
  moreover have "parse both twoBlockDocument filePath = Inr (twoBlocks filePath)" by code_simp
  ultimately show ?thesis by blast
qed

text \<open>
  Claim C6, as the claim states it: the second definition of the example would start at
  line 9. It does not: the document has ten lines and its header \<open># Gizmo\<close> is the eighth.
\<close>

theorem parse_example_line_9_counterexample:
  "length (split (CHR ''\<newline>'') exampleDocument) = 10
   \<and> at (split (CHR ''\<newline>'') exampleDocument) (8 - 1) = Inr ''# Gizmo''
   \<and> parse hyphens exampleDocument ''defs/a.md'' \<noteq> Inr (exampleBlocks ''defs/a.md'' 9)"
  by code_simp

text \<open>
  Claim C6, amended: the example parses to exactly two definitions, \<open>Widget\<close> with the alias
  \<open>gadget\<close>, its content and line number 1, and \<open>Gizmo\<close> without aliases, with its content
  and line number 8, the 1-indexed line of its header; the same under both divider
  patterns and for every file path.
\<close>

theorem parse_example:
  "parse hyphens exampleDocument filePath = Inr (exampleBlocks filePath 8)
   \<and> parse both exampleDocument filePath = Inr (exampleBlocks filePath 8)"
  by code_simp

section \<open>Lookups\<close>

lemma filter_first_find:
  "(if length (filter P xs) > 0 then Some (filter P xs ! 0) else None) = find P xs"
  by (induction xs) auto

lemma first_case:
  "(if length ds = 0 then None else Some (ds ! 0)) = (case ds of [] \<Rightarrow> None | d # _ \<Rightarrow> Some d)"
  by (cases ds) auto

lemma getDefinition_None:
  "getDefinition c ph None =
     (case map_of (definitions c) (toLowerCase ph) of
        None \<Rightarrow> None
      | Some ds \<Rightarrow> (case ds of [] \<Rightarrow> None | d # _ \<Rightarrow> Some d))"
  by (simp add: getDefinition_def hasContext_def first_case split: option.splits list.splits)

lemma getDefinition_Some:
  assumes "fs \<noteq> []"
  shows "getDefinition c ph (Some fs) =
     (case map_of (definitions c) (toLowerCase ph) of
        None \<Rightarrow> None
      | Some ds \<Rightarrow> find (\<lambda>d. sourceFile d \<in> set fs) ds)"
proof (cases "map_of (definitions c) (toLowerCase ph)")
  case None
  then show ?thesis by (simp add: getDefinition_def)
next
  case (Some ds)
  have m: "inContext (Some fs) = (\<lambda>d. sourceFile d \<in> set fs)"
    by (auto simp: inContext_def fun_eq_iff)
  have "getDefinition c ph (Some fs) =
      (if length ds = 0 then None
       else if length (filter (\<lambda>d. sourceFile d \<in> set fs) ds) > 0
       then Some (filter (\<lambda>d. sourceFile d \<in> set fs) ds ! 0) else None)"
    using assms Some by (simp add: getDefinition_def hasContext_def m Let_def)
  also have "\<dots> = find (\<lambda>d. sourceFile d \<in> set fs) ds"
    unfolding filter_first_find by (cases ds) auto
  finally show ?thesis using Some by simp
qed

text \<open>
  Claim C4. Without a context, \<open>getDefinition\<close> returns the first definition stored under
  the lowercased phrase, and none when the key is absent (or its list empty); with a
  non-empty context list it returns the first stored definition whose source file is in
  the list, and none when there is no such definition.
\<close>

theorem getDefinition_first_match:
  "getDefinition c ph None =
     (case map_of (definitions c) (toLowerCase ph) of
        None \<Rightarrow> None
      | Some ds \<Rightarrow> (case ds of [] \<Rightarrow> None | d # _ \<Rightarrow> Some d))
   \<and> getDefinition c ph (Some (f # fs)) =
     (case map_of (definitions c) (toLowerCase ph) of
        None \<Rightarrow> None
      | Some ds \<Rightarrow> find (\<lambda>d. sourceFile d \<in> set (f # fs)) ds)"
  using getDefinition_None [of c ph] getDefinition_Some [of "f # fs" c ph] by blast

text \<open>The definition of \<open>a.md\<close>, alone under its key, is hidden by the context \<open>b.md\<close> and
  found under the context \<open>a.md\<close> and without a context.\<close>

theorem getDefinition_first_match_witness:
  "getDefinition (addToCache exampleDefinition emptyCache) ''Widget'' (Some [''b.md'']) = None
   \<and> getDefinition (addToCache exampleDefinition emptyCache) ''Widget'' (Some [''a.md''])
       = Some exampleDefinition
   \<and> getDefinition (addToCache exampleDefinition emptyCache) ''Widget'' None
       = Some exampleDefinition"
proof -
  have c: "map_of (definitions (addToCache exampleDefinition emptyCache)) (toLowerCase ''Widget'')
      = Some [exampleDefinition]"
    by code_simp
  have s: "sourceFile exampleDefinition = ''a.md''" by (simp add: exampleDefinition_def)
  show ?thesis
    using getDefinition_first_match
        [of "addToCache exampleDefinition emptyCache" "''Widget''" "''b.md''" "[]"]
      getDefinition_first_match
        [of "addToCache exampleDefinition emptyCache" "''Widget''" "''a.md''" "[]"]
    by (simp add: c s)
qed

section \<open>File events and the definition folder\<close>

lemma startsWith_prefix: "startsWith s p = prefix p s"
  by (metis startsWith_def take_is_prefix prefix_def append_eq_conv_conj)

text \<open>
  Claim C10. A path is in the definition folder exactly when the folder setting is not
  empty and the path starts with it, character by character; \<open>onFileChange\<close>,
  \<open>onFileDelete\<close> and \<open>onFileRename\<close> act on exactly these paths (for a rename: the old or
  the new path).
\<close>

theorem isInDefinitionFolder_iff:
  "isInDefinitionFolder F p = (F \<noteq> [] \<and> prefix F p)
   \<and> onFileChange p m =
       (if definitionFolder m \<noteq> [] \<and> prefix (definitionFolder m) p
        then m\<lparr>fileWatcherDebounceTimer := Some p\<rparr> else m)
   \<and> onFileDelete p m =
       (if definitionFolder m \<noteq> [] \<and> prefix (definitionFolder m) p
        then m\<lparr>cache := removeFromCache p (cache m)\<rparr> else m)
   \<and> onFileRename load p old m =
       (if definitionFolder m \<noteq> [] \<and> prefix (definitionFolder m) p
        then reloadFile load p (m\<lparr>cache := removeFromCache old (cache m)\<rparr>)
        else if definitionFolder m \<noteq> [] \<and> prefix (definitionFolder m) old
        then m\<lparr>cache := removeFromCache old (cache m)\<rparr>
        else m)"
  by (simp add: isInDefinitionFolder_def onFileChange_def onFileDelete_def onFileRename_def
      startsWith_prefix Let_def)

text \<open>The sibling folder \<open>defs2\<close> is in scope of the folder \<open>defs\<close>, and nothing is in scope
  of the empty setting.\<close>

theorem isInDefinitionFolder_iff_witness:
  "isInDefinitionFolder ''defs'' ''defs2/a.md'' \<and> \<not> isInDefinitionFolder '''' ''defs2/a.md''
   \<and> \<not> isInDefinitionFolder ''defs'' ''notes/a.md''"
  using isInDefinitionFolder_iff [of "''defs''" "''defs2/a.md''"]
    isInDefinitionFolder_iff [of "''''" "''defs2/a.md''"]
    isInDefinitionFolder_iff [of "''defs''" "''notes/a.md''"]
  by simp

section \<open>The phrase scanner\<close>


lemma code_less: "code c < 256"
  by (simp add: code_def)

lemma code_char_of: "n < 256 \<Longrightarrow> code (char_of n) = n"
  by (simp add: code_def)

lemma char_of_code: "char_of (code c) = c"
  by (simp add: code_def)

lemma toLowerChar_canonicalize: "toLowerChar (canonicalize c) = toLowerChar c"
proof (cases "hasUpperCase c")
  case False
  then show ?thesis by (simp add: canonicalize_def)
next
  case True
  then have r: "(97 \<le> code c \<and> code c \<le> 122) \<or> (224 \<le> code c \<and> code c \<le> 254 \<and> code c \<noteq> 247)"
    unfolding hasUpperCase_def .
  from True have c: "canonicalize c = char_of (code c - 32)" by (simp add: canonicalize_def)
  have k: "code (char_of (code c - 32)) = code c - 32"
    using code_less [of c] by (intro code_char_of) simp
  from r have "(65 \<le> code c - 32 \<and> code c - 32 \<le> 90)
      \<or> (192 \<le> code c - 32 \<and> code c - 32 \<le> 222 \<and> code c - 32 \<noteq> 215)" by linarith
  then have u: "hasLowerCase (char_of (code c - 32))" unfolding hasLowerCase_def k .
  from r have "\<not> ((65 \<le> code c \<and> code c \<le> 90)
      \<or> (192 \<le> code c \<and> code c \<le> 222 \<and> code c \<noteq> 215))" by linarith
  then have n: "\<not> hasLowerCase c" unfolding hasLowerCase_def .
  from r have "code c - 32 + 32 = code c" by linarith
  with u have "toLowerChar (char_of (code c - 32)) = c"
    by (simp add: toLowerChar_def k char_of_code)
  moreover have "toLowerChar c = c" using n by (simp add: toLowerChar_def)
  ultimately show ?thesis using c by simp
qed

lemma canonicalize_toLowerChar: "canonicalize (toLowerChar c) = canonicalize c"
proof (cases "hasLowerCase c")
  case False
  then show ?thesis by (simp add: toLowerChar_def)
next
  case True
  then have r: "(65 \<le> code c \<and> code c \<le> 90) \<or> (192 \<le> code c \<and> code c \<le> 222 \<and> code c \<noteq> 215)"
    unfolding hasLowerCase_def .
  from True have c: "toLowerChar c = char_of (code c + 32)" by (simp add: toLowerChar_def)
  have k: "code (char_of (code c + 32)) = code c + 32"
    using r by (intro code_char_of) linarith
  from r have "(97 \<le> code c + 32 \<and> code c + 32 \<le> 122)
      \<or> (224 \<le> code c + 32 \<and> code c + 32 \<le> 254 \<and> code c + 32 \<noteq> 247)" by linarith
  then have u: "hasUpperCase (char_of (code c + 32))" unfolding hasUpperCase_def k .
  from r have "\<not> ((97 \<le> code c \<and> code c \<le> 122)
      \<or> (224 \<le> code c \<and> code c \<le> 254 \<and> code c \<noteq> 247))" by linarith
  then have n: "\<not> hasUpperCase c" unfolding hasUpperCase_def .
  from u have "canonicalize (char_of (code c + 32)) = c"
    by (simp add: canonicalize_def k char_of_code)
  moreover have "canonicalize c = c" using n by (simp add: canonicalize_def)
  ultimately show ?thesis using c by simp
qed

lemma canonicalize_eq_iff:
  "(canonicalize a = canonicalize b) = (toLowerChar a = toLowerChar b)"
  by (metis toLowerChar_canonicalize canonicalize_toLowerChar)


lemma map_canonicalize_eq_iff:
  "(map canonicalize xs = map canonicalize ys) = (toLowerCase xs = toLowerCase ys)"
proof (induction xs arbitrary: ys)
  case Nil
  then show ?case by (auto simp: toLowerCase_def)
next
  case (Cons x xs)
  then show ?case
    by (cases ys) (auto simp: toLowerCase_def canonicalize_eq_iff)
qed

lemma regexExec_Some:
  assumes "regexExec t p li = Some f"
  shows "li \<le> f" "f \<le> length t" "matchesAt t p f" "\<And>j. li \<le> j \<Longrightarrow> j < f \<Longrightarrow> \<not> matchesAt t p j"
proof -
  define n where "n = length t + 1"
  from assms have "find (matchesAt t p) [li ..< n] = Some f"
    by (simp only: regexExec_def n_def)
  then obtain i where i: "i < length [li ..< n]"
    and P: "matchesAt t p ([li ..< n] ! i)"
    and f: "f = [li ..< n] ! i"
    and first: "\<forall>j<i. \<not> matchesAt t p ([li ..< n] ! j)"
    unfolding find_Some_iff by blast
  from i have fi: "f = li + i" and iln: "li + i < n" using f by simp_all
  from fi iln show "li \<le> f" "f \<le> length t" by (simp_all add: n_def)
  from P f show "matchesAt t p f" by simp
  fix j assume j: "li \<le> j" "j < f"
  then have ji: "j - li < i" using fi by simp
  with first have "\<not> matchesAt t p ([li ..< n] ! (j - li))" by blast
  moreover have "[li ..< n] ! (j - li) = j" using j fi iln by simp
  ultimately show "\<not> matchesAt t p j" by simp
qed

lemma regexExec_None:
  assumes "regexExec t p li = None" "li \<le> j"
  shows "\<not> matchesAt t p j"
proof
  assume m: "matchesAt t p j"
  define n where "n = length t + 1"
  from m have "j < n" by (simp add: matchesAt_def n_def)
  with assms(2) have "j \<in> set [li ..< n]" by simp
  moreover from assms(1) have "find (matchesAt t p) [li ..< n] = None"
    by (simp only: regexExec_def n_def)
  ultimately show False using m unfolding find_None_iff by blast
qed

lemma regexExec_first:
  assumes "matchesAt t p j" "li \<le> j" "\<And>k. li \<le> k \<Longrightarrow> k < j \<Longrightarrow> \<not> matchesAt t p k"
  shows "regexExec t p li = Some j"
proof (cases "regexExec t p li")
  case None
  with regexExec_None assms show ?thesis by blast
next
  case (Some f)
  from regexExec_Some[OF Some] assms have "f = j"
    by (metis linorder_neqE_nat)
  with Some show ?thesis by simp
qed

text \<open>An empty phrase never lets the loop advance.\<close>

lemma execLoop_empty_phrase:
  assumes "execLoop t p li ms = Some r"
  shows "\<not> (p = [] \<and> regexExec t p li \<noteq> None)"
  using assms
proof (induction rule: execLoop.raw_induct[rotated 1, consumes 1])
  case (1 execLoop' t p li ms r)
  show ?case
  proof
    assume a: "p = [] \<and> regexExec t p li \<noteq> None"
    then obtain f where f: "regexExec t p li = Some f" by blast
    from regexExec_Some[OF f] have "regexExec t p f = Some f"
      by (intro regexExec_first) auto
    moreover from 1(2) f a have "execLoop' t p f (acceptMatch t p f ms) = Some r" by simp
    ultimately show False using 1(1) a by blast
  qed
qed

lemma execLoop_total:
  assumes "p \<noteq> []" and "I li ms"
    and step: "\<And>li f ms. I li ms \<Longrightarrow> regexExec t p li = Some f
                 \<Longrightarrow> I (f + length p) (acceptMatch t p f ms)"
  shows "\<exists>r li'. execLoop t p li ms = Some r \<and> I li' r \<and> regexExec t p li' = None"
  using assms(2)
proof (induction "length t + 1 - li" arbitrary: li ms rule: less_induct)
  case less
  show ?case
  proof (cases "regexExec t p li")
    case None
    then have "execLoop t p li ms = Some ms" by (subst execLoop.simps) simp
    with None less.prems show ?thesis by blast
  next
    case (Some f)
    from regexExec_Some(1,2)[OF Some] assms(1)
    have "length t + 1 - (f + length p) < length t + 1 - li"
      by (cases p) auto
    from less.hyps[OF this step[OF less.prems Some]]
    obtain r li' where "execLoop t p (f + length p) (acceptMatch t p f ms) = Some r"
      "I li' r" "regexExec t p li' = None" by blast
    moreover have "execLoop t p li ms = execLoop t p (f + length p) (acceptMatch t p f ms)"
      using Some by (subst execLoop.simps) simp
    ultimately show ?thesis by auto
  qed
qed

lemma overlaps_iff:
  "overlaps f e ms = (\<exists>m\<in>set ms. (mfrom m \<le> f \<and> f < mto m) \<or> (mfrom m < e \<and> e \<le> mto m))"
  by (auto simp: overlaps_def list_ex_iff)

lemma matchesAt_lower:
  assumes "matchesAt t p f"
  shows "length (take (length p) (drop f t)) = length p"
    and "toLowerCase (take (length p) (drop f t)) = toLowerCase p"
  using assms by (auto simp: matchesAt_def map_canonicalize_eq_iff)

lemma scanInv_accept:
  assumes inv: "scanInv t P (length p) ms" and p: "p \<in> set P" "p \<noteq> []" and m: "matchesAt t p f"
  shows "scanInv t P (length p) (acceptMatch t p f ms)"
proof (cases "overlaps f (f + length p) ms")
  case True
  with inv show ?thesis by (simp add: acceptMatch_def)
next
  case False
  define s where "s = \<lparr>mphrase = take (length p) (drop f t), mfrom = f, mto = f + length p\<rparr>"
  have acc: "acceptMatch t p f ms = ms @ [s]"
    using False by (simp add: acceptMatch_def s_def)
  have len: "length (mphrase s) = length p" using matchesAt_lower(1)[OF m] by (simp add: s_def)
  have wf: "wellFormed t P s"
    using m p matchesAt_lower[OF m] len
    by (auto simp: wellFormed_def s_def matchesAt_def)
  have dis: "disjointSpans s a \<and> disjointSpans a s \<and> a \<noteq> s" if a: "a \<in> set ms" for a
  proof -
    from inv a have "wellFormed t P a" "length p \<le> length (mphrase a)"
      by (auto simp: scanInv_def)
    then have la: "mto a = mfrom a + length (mphrase a)" "length p \<le> length (mphrase a)"
      by (auto simp: wellFormed_def)
    from False a have no: "\<not> ((mfrom a \<le> f \<and> f < mto a) \<or> (mfrom a < f + length p \<and> f + length p \<le> mto a))"
      by (auto simp: overlaps_iff)
    from p(2) have "0 < length p" by simp
    with la no have "f + length p \<le> mfrom a \<or> mto a \<le> f" by linarith
    moreover from this \<open>0 < length p\<close> la have "a \<noteq> s" by (auto simp: s_def)
    ultimately show ?thesis by (auto simp: disjointSpans_def s_def)
  qed
  show ?thesis
    unfolding acc scanInv_def
    using inv wf len dis by (auto simp: scanInv_def)
qed

lemma scanInv_weaken: "scanInv t P n ms \<Longrightarrow> k \<le> n \<Longrightarrow> scanInv t P k ms"
  by (fastforce simp: scanInv_def)

lemma execLoop_scanInv:
  assumes "scanInv t P (length p) ms" "p \<in> set P" "p \<noteq> []"
  shows "\<exists>r. execLoop t p li ms = Some r \<and> scanInv t P (length p) r"
proof -
  have "\<exists>r li'. execLoop t p li ms = Some r \<and> scanInv t P (length p) r \<and> regexExec t p li' = None"
    using assms(3,1)
  proof (rule execLoop_total[where I = "\<lambda>li ms. scanInv t P (length p) ms"])
    fix li f ms
    assume "scanInv t P (length p) ms" "regexExec t p li = Some f"
    then show "scanInv t P (length p) (acceptMatch t p f ms)"
      using scanInv_accept assms(2,3) regexExec_Some(3) by blast
  qed
  then show ?thesis by blast
qed

lemma phrasesLoop_scanInv:
  assumes "sorted_wrt (\<lambda>a b. length b \<le> length a) ps" "set ps \<subseteq> set P" "[] \<notin> set ps"
    and "\<forall>p\<in>set ps. scanInv t P (length p) ms" "scanInv t P 0 ms"
  shows "\<exists>r. phrasesLoop t ps ms = Some r \<and> scanInv t P 0 r"
  using assms
proof (induction ps arbitrary: ms)
  case Nil
  then show ?case by simp
next
  case (Cons p ps)
  from Cons.prems have p: "p \<in> set P" "p \<noteq> []" "scanInv t P (length p) ms" by auto
  from execLoop_scanInv[OF p(3) p(1) p(2), of 0]
  obtain r where r: "execLoop t p 0 ms = Some r" "scanInv t P (length p) r" by blast
  have "\<forall>q\<in>set ps. scanInv t P (length q) r"
    using Cons.prems(1) r(2) by (auto intro: scanInv_weaken)
  moreover have "scanInv t P 0 r" using r(2) by (rule scanInv_weaken) simp
  ultimately obtain r' where "phrasesLoop t ps r = Some r'" "scanInv t P 0 r'"
    using Cons.IH[of r] Cons.prems by auto
  with r(1) show ?case by simp
qed

lemma sortByLengthDesc_props:
  "sorted_wrt (\<lambda>a b. length b \<le> length a) (sortByLengthDesc P)"
  "set (sortByLengthDesc P) = set P"
proof -
  have "sorted (map (\<lambda>p. - int (length p)) (sortByLengthDesc P))"
    unfolding sortByLengthDesc_def by (rule sorted_sort_key)
  then show "sorted_wrt (\<lambda>a b. length b \<le> length a) (sortByLengthDesc P)"
    by (simp add: sorted_wrt_map)
  show "set (sortByLengthDesc P) = set P" by (simp add: sortByLengthDesc_def)
qed

lemma scanInv_ordered:
  assumes "scanInv t P 0 r" "sorted (map mfrom r)" "i < j" "j < length r"
  shows "mto (r ! i) \<le> mfrom (r ! j)"
proof -
  from assms have ne: "r ! i \<noteq> r ! j" by (auto simp: scanInv_def nth_eq_iff_index_eq)
  from assms have le: "mfrom (r ! i) \<le> mfrom (r ! j)"
    by (simp add: sorted_iff_nth_mono)
  from assms have mem: "r ! i \<in> set r" "r ! j \<in> set r" by auto
  with assms(1) ne have "disjointSpans (r ! i) (r ! j)" by (auto simp: scanInv_def)
  moreover from assms(1) mem have "mfrom (r ! j) < mto (r ! j)"
    by (auto simp: scanInv_def wellFormed_def)
  ultimately show ?thesis using le by (auto simp: disjointSpans_def)
qed

lemma findPhrases_sound:
  assumes "[] \<notin> set P"
  shows "\<exists>r. findPhrases t P = Some r \<and> sorted (map mfrom r)
           \<and> (\<forall>i j. i < j \<and> j < length r \<longrightarrow> mto (r ! i) \<le> mfrom (r ! j))
           \<and> (\<forall>m\<in>set r. wellFormed t P m)"
proof -
  have "scanInv t P n []" for n by (simp add: scanInv_def)
  with phrasesLoop_scanInv[of "sortByLengthDesc P" P t "[]"] sortByLengthDesc_props[of P] assms
  obtain r where r: "phrasesLoop t (sortByLengthDesc P) [] = Some r" "scanInv t P 0 r"
    by auto
  let ?s = "sort_key mfrom r"
  have f: "findPhrases t P = Some ?s" using r(1) by (simp add: findPhrases_def)
  have inv: "scanInv t P 0 ?s" using r(2) by (simp add: scanInv_def)
  have srt: "sorted (map mfrom ?s)" by (rule sorted_sort_key)
  from scanInv_ordered[OF inv srt] inv f srt show ?thesis
    by (auto simp: scanInv_def)
qed


text \<open>
  Claim C2 says that \<open>findPhrases\<close> returns a sorted list of disjoint matches for every
  phrase list and every text. For phrase lists without the empty string it does
  (\<open>findPhrases_sound\<close>). With the empty string among the phrases the pattern is \<open>\b\b\<close>,
  which matches the empty string at the first word boundary; \<open>exec\<close> leaves \<open>lastIndex\<close>
  where that match ends, which is where it starts, and the loop never ends: on the text
  \<open>a\<close> and the phrase list holding the empty string \<open>findPhrases\<close> does not return.
\<close>

theorem findPhrases_empty_phrase_diverges: "findPhrases ''a'' [''''] = None"
proof -
  have e: "regexExec ''a'' '''' 0 \<noteq> None" by code_simp
  have "execLoop ''a'' '''' 0 [] = None"
    using execLoop_empty_phrase [of "''a''" "''''" 0 "[]"] e
    by (cases "execLoop ''a'' '''' 0 []") auto
  then show ?thesis by (simp add: findPhrases_def sortByLengthDesc_def)
qed

lemma overlaps_shares:
  assumes "0 < n" "\<forall>m\<in>set ms. mfrom m + n \<le> mto m"
  shows "overlaps f (f + n) ms = (\<exists>m\<in>set ms. mfrom m < f + n \<and> f < mto m)"
proof -
  have "((mfrom m \<le> f \<and> f < mto m) \<or> (mfrom m < f + n \<and> f + n \<le> mto m))
      = (mfrom m < f + n \<and> f < mto m)" if "m \<in> set ms" for m
  proof -
    from that assms(2) have "mfrom m + n \<le> mto m" by blast
    with assms(1) show ?thesis by linarith
  qed
  then show ?thesis unfolding overlaps_iff by blast
qed

text \<open>
  Claim C7, amended. When the loop meets a candidate match of a non-empty phrase that is
  no longer than any accepted match, it discards the candidate exactly when the candidate
  shares a character with an accepted match (so whenever one of its ends lies strictly
  inside one), keeps it otherwise, and in both cases goes on at the end of the candidate.
  A candidate that only touches an accepted match, starting where it ends or ending where
  it starts, shares no character with it and is kept.
\<close>

theorem execLoop_discards_iff_shared:
  assumes "regexExec t p li = Some f" "p \<noteq> []" "\<forall>m\<in>set ms. mfrom m + length p \<le> mto m"
  shows "execLoop t p li ms =
     execLoop t p (f + length p)
       (if \<exists>m\<in>set ms. mfrom m < f + length p \<and> f < mto m then ms
        else ms @ [\<lparr>mphrase = take (length p) (drop f t), mfrom = f, mto = f + length p\<rparr>])"
proof -
  define shared where "shared = (\<exists>m\<in>set ms. mfrom m < f + length p \<and> f < mto m)"
  from assms(2) have "0 < length p" by simp
  from overlaps_shares[OF this assms(3)]
  have "overlaps f (f + length p) ms = shared" by (simp only: shared_def)
  then have "acceptMatch t p f ms =
     (if shared then ms
      else ms @ [\<lparr>mphrase = take (length p) (drop f t), mfrom = f, mto = f + length p\<rparr>])"
    by (simp add: acceptMatch_def)
  then show ?thesis using assms(1) unfolding shared_def by (subst execLoop.simps) simp
qed

text \<open>The candidate \<open>foo\<close> ends where the accepted match \<open>-bar\<close> starts, and is kept.\<close>

theorem execLoop_discards_iff_shared_witness:
  "regexExec ''foo-bar'' ''foo'' 0 = Some 0 \<and> ''foo'' \<noteq> []
   \<and> mfrom barMatch + length ''foo'' \<le> mto barMatch
   \<and> execLoop ''foo-bar'' ''foo'' 0 [barMatch] = Some [barMatch, fooMatch]"
proof -
  have a: "regexExec ''foo-bar'' ''foo'' 0 = Some 0" by code_simp
  have b: "\<forall>m\<in>set [barMatch]. mfrom m + length ''foo'' \<le> mto m" by (simp add: barMatch_def)
  have n: "''foo'' \<noteq> []" by simp
  have c1: "(if \<exists>m\<in>set [barMatch]. mfrom m < 0 + length ''foo'' \<and> 0 < mto m then [barMatch]
        else [barMatch] @ [\<lparr>mphrase = take (length ''foo'') (drop 0 ''foo-bar''), mfrom = 0,
                            mto = 0 + length ''foo''\<rparr>]) = [barMatch, fooMatch]"
    by (simp add: barMatch_def fooMatch_def)
  have c3: "execLoop ''foo-bar'' ''foo'' (0 + length ''foo'') [barMatch, fooMatch]
      = Some [barMatch, fooMatch]"
    by code_simp
  have "execLoop ''foo-bar'' ''foo'' 0 [barMatch] = Some [barMatch, fooMatch]"
    using execLoop_discards_iff_shared [OF a n b] by (simp only: c1 c3)
  moreover have "mfrom barMatch + length ''foo'' \<le> mto barMatch" using b by simp
  ultimately show ?thesis using a n by blast
qed

text \<open>
  Claim C7, as the claim states it: a shorter match that touches an accepted one would be
  discarded. On the text \<open>foo-bar\<close> the longer phrase \<open>-bar\<close> claims the span from 3 to 7,
  the match of \<open>foo\<close> from 0 to 3 ends where that span starts, and both are returned.
\<close>

theorem touching_match_kept_counterexample:
  "execLoop ''foo-bar'' ''-bar'' 0 [] = Some [barMatch]
   \<and> regexExec ''foo-bar'' ''foo'' 0 = Some 0
   \<and> mto fooMatch = mfrom barMatch
   \<and> acceptMatch ''foo-bar'' ''foo'' 0 [barMatch] = [barMatch, fooMatch]
   \<and> findPhrases ''foo-bar'' [''-bar'', ''foo''] = Some [fooMatch, barMatch]"
proof -
  have "execLoop ''foo-bar'' ''-bar'' 0 [] = Some [barMatch]" by code_simp
  moreover have "regexExec ''foo-bar'' ''foo'' 0 = Some 0" by code_simp
  moreover have "mto fooMatch = mfrom barMatch" by code_simp
  moreover have "acceptMatch ''foo-bar'' ''foo'' 0 [barMatch] = [barMatch, fooMatch]" by code_simp
  moreover have "findPhrases ''foo-bar'' [''-bar'', ''foo''] = Some [fooMatch, barMatch]"
    by code_simp
  ultimately show ?thesis by blast
qed

section \<open>The write paths under failure\<close>


lemma appendToConsolidatedFile_failure:
  "appendToConsolidatedFile f p a c v = (Inl e, v') \<Longrightarrow> files v' = files v"
  by (auto simp: appendToConsolidatedFile_def vaultRead_def vaultModify_def tick_def Let_def
      split: if_splits option.splits)

lemma updateConsolidatedDefinition_failure:
  "updateConsolidatedDefinition f d p a c v = (Inl e, v') \<Longrightarrow> files v' = files v"
  by (auto simp: updateConsolidatedDefinition_def vaultRead_def vaultModify_def tick_def Let_def
      split: if_splits option.splits sum.splits)

lemma deleteConsolidatedDefinition_failure:
  "deleteConsolidatedDefinition f d v = (Inl e, v') \<Longrightarrow> files v' = files v"
  by (auto simp: deleteConsolidatedDefinition_def vaultRead_def vaultModify_def tick_def Let_def
      split: if_splits option.splits sum.splits)

lemma split_not_Nil: "split sep s \<noteq> []"
  by (induction s) (auto split: list.splits)

lemma findContentStart_total: "\<exists>r. findContentStart lines i = Inr r"
proof (induction lines i rule: findContentStart.induct)
  case (1 lines i)
  show ?case using "1.IH" by (subst findContentStart.simps) (auto simp: at_def)
qed

lemma join_snoc2: "join sep (xs @ [a, b]) = join sep (xs @ [a]) @ sep @ b"
proof (induction xs)
  case Nil
  show ?case by simp
next
  case (Cons x xs)
  then show ?case by (cases xs) auto
qed

text \<open>
  Claim C9 says that a write path that fails leaves the document as it was. The
  consolidated paths do (the three lemmas above): they read, build the new content and
  write once. \<open>updateAtomicDefinition\<close> writes the front matter through the host, then
  reads, then writes the body, then renames: when the rename fails (the fourth host call),
  the operation fails and the content of the document has already been replaced,
  whatever the host does to the front matter; and when the read fails (the second host
  call), the document is left with the front matter the host has rewritten.
\<close>

theorem updateAtomicDefinition_partial_write:
  "fst (updateAtomicDefinition setAliases ''defs/CPU.md'' atomicDefinition ''GPU'' [] ''new''
          atomicVault) = Inl IOError
   \<and> map_of (files (snd (updateAtomicDefinition setAliases ''defs/CPU.md'' atomicDefinition
          ''GPU'' [] ''new'' atomicVault))) ''defs/CPU.md''
       \<noteq> map_of (files atomicVault) ''defs/CPU.md''
   \<and> updateAtomicDefinition setAliases ''defs/CPU.md'' atomicDefinition ''CPU'' [''Processor'']
          ''new'' (atomicVault\<lparr>failing := [1]\<rparr>)
       = (Inl IOError,
          \<lparr>files = [(''defs/CPU.md'', setAliases [''Processor''] ''old'')], calls = 2,
             failing = [1]\<rparr>)"
proof -
  have r: "updateAtomicDefinition setAliases ''defs/CPU.md'' atomicDefinition ''CPU''
          [''Processor''] ''new'' (atomicVault\<lparr>failing := [1]\<rparr>)
       = (Inl IOError,
          \<lparr>files = [(''defs/CPU.md'', setAliases [''Processor''] ''old'')], calls = 2,
             failing = [1]\<rparr>)"
    by (simp add: updateAtomicDefinition_def processFrontMatter_def vaultRead_def
        hostFails_def tick_def atomicVault_def)
  define lines where "lines = split (CHR ''\<newline>'') (setAliases [] ''old'')"
  have "lines \<noteq> []" by (simp add: lines_def split_not_Nil)
  then have a0: "at lines 0 = Inr (lines ! 0)" by (simp add: at_def)
  have "\<exists>cs. (case at lines 0 of Inl e \<Rightarrow> Inl e
      | Inr l \<Rightarrow> if trim l = ''---'' then findContentStart lines 1 else Inr 0) = Inr cs"
    using findContentStart_total [of lines 1]
    by (cases "trim (lines ! 0) = ''---''") (simp_all add: a0)
  then obtain cs where cs:
    "(case at lines 0 of Inl e \<Rightarrow> Inl e
      | Inr l \<Rightarrow> if trim l = ''---'' then findContentStart lines 1 else Inr 0) = Inr cs"
    by blast
  define new where "new = join ''\<newline>'' (take cs lines @ ['''', ''new''])"
  have "length new \<ge> 4" unfolding new_def join_snoc2 by simp
  then have ne: "new \<noteq> ''old''" by auto
  have "updateAtomicDefinition setAliases ''defs/CPU.md'' atomicDefinition ''GPU'' [] ''new''
          atomicVault
      = (Inl IOError, \<lparr>files = [(''defs/CPU.md'', new)], calls = 4, failing = [3]\<rparr>)"
    using cs
    by (simp add: updateAtomicDefinition_def processFrontMatter_def vaultRead_def
        vaultModify_def renameFile_def hostFails_def tick_def atomicVault_def
        atomicDefinition_def lines_def[symmetric] new_def Let_def)
  then have "fst (updateAtomicDefinition setAliases ''defs/CPU.md'' atomicDefinition ''GPU'' []
          ''new'' atomicVault) = Inl IOError
      \<and> map_of (files (snd (updateAtomicDefinition setAliases ''defs/CPU.md'' atomicDefinition
          ''GPU'' [] ''new'' atomicVault))) ''defs/CPU.md''
       \<noteq> map_of (files atomicVault) ''defs/CPU.md''"
    using ne by (simp add: atomicVault_def)
  with r show ?thesis by blast
qed

section \<open>The longer phrase wins\<close>


lemma acceptMatch_cases:
  "acceptMatch t p f ms = ms \<or> acceptMatch t p f ms = ms @ [matchOf t p f]"
  by (simp add: acceptMatch_def matchOf_def Let_def)

lemma execLoop_Some_unfold:
  assumes "execLoop t p li ms = Some r"
  shows "(regexExec t p li = None \<and> r = ms)
     \<or> (\<exists>f. regexExec t p li = Some f
           \<and> execLoop t p (f + length p) (acceptMatch t p f ms) = Some r)"
  using assms by (subst (asm) execLoop.simps) (auto split: option.splits)

lemma execLoop_subset:
  assumes "p \<noteq> []" "execLoop t p li ms = Some r"
  shows "set ms \<subseteq> set r"
proof -
  have "\<exists>r' li'. execLoop t p li ms = Some r' \<and> set ms \<subseteq> set r' \<and> regexExec t p li' = None"
  proof (rule execLoop_total[where I = "\<lambda>li ms'. set ms \<subseteq> set ms'", OF assms(1)])
    show "set ms \<subseteq> set ms" by simp
  next
    fix li f ms'
    assume "set ms \<subseteq> set ms'"
    then show "set ms \<subseteq> set (acceptMatch t p f ms')"
      using acceptMatch_cases[of t p f ms'] by auto
  qed
  with assms(2) show ?thesis by auto
qed

lemma phrasesLoop_subset:
  assumes "[] \<notin> set ps" "phrasesLoop t ps ms = Some r"
  shows "set ms \<subseteq> set r"
  using assms
proof (induction ps arbitrary: ms)
  case Nil
  then show ?case by simp
next
  case (Cons q qs)
  from Cons.prems(2) obtain r1 where r1: "execLoop t q 0 ms = Some r1" "phrasesLoop t qs r1 = Some r"
    by (auto split: option.splits)
  from Cons.prems(1) have "q \<noteq> []" by auto
  from execLoop_subset[OF this r1(1)] Cons.IH[OF _ r1(2)] Cons.prems(1) show ?case by auto
qed

lemma execLoop_clearOf:
  assumes q: "q \<noteq> []"
    and iso: "\<forall>j. matchesAt t q j \<longrightarrow>
                (j = i \<and> length q = length p) \<or> j + length q \<le> i \<or> i + length p \<le> j"
    and c: "clearOf t p i ms" and r: "execLoop t q li ms = Some r"
  shows "clearOf t p i r"
proof -
  have "\<exists>r' li'. execLoop t q li ms = Some r' \<and> clearOf t p i r' \<and> regexExec t q li' = None"
  proof (rule execLoop_total[where I = "\<lambda>li ms'. clearOf t p i ms'", OF q c])
    fix li f ms'
    assume c': "clearOf t p i ms'" and e: "regexExec t q li = Some f"
    from regexExec_Some(3)[OF e] iso
    have "(f = i \<and> length q = length p) \<or> f + length q \<le> i \<or> i + length p \<le> f" by blast
    then have "matchOf t q f = matchOf t p i \<or> mto (matchOf t q f) \<le> i
        \<or> i + length p \<le> mfrom (matchOf t q f)"
      by (auto simp: matchOf_def)
    with c' show "clearOf t p i (acceptMatch t q f ms')"
      using acceptMatch_cases[of t q f ms'] by (auto simp: clearOf_def)
  qed
  with r show ?thesis by auto
qed

lemma execLoop_finds:
  assumes p: "p \<noteq> []" and m: "matchesAt t p i"
    and iso: "\<forall>j. matchesAt t p j \<longrightarrow>
                (j = i \<and> length p = length p) \<or> j + length p \<le> i \<or> i + length p \<le> j"
    and c: "clearOf t p i ms" and r: "execLoop t p 0 ms = Some r"
  shows "matchOf t p i \<in> set r"
proof -
  let ?S = "matchOf t p i"
  let ?I = "\<lambda>li ms'. ?S \<in> set ms' \<or> (li \<le> i \<and> clearOf t p i ms')"
  have "\<exists>r' li'. execLoop t p 0 ms = Some r' \<and> ?I li' r' \<and> regexExec t p li' = None"
  proof (rule execLoop_total[where I = ?I, OF p])
    show "?I 0 ms" using c by simp
  next
    fix li f ms'
    assume I: "?I li ms'" and e: "regexExec t p li = Some f"
    show "?I (f + length p) (acceptMatch t p f ms')"
    proof (cases "?S \<in> set ms'")
      case True
      then show ?thesis using acceptMatch_cases[of t p f ms'] by auto
    next
      case False
      with I have li: "li \<le> i" and c': "clearOf t p i ms'" by auto
      from regexExec_Some(4)[OF e, of i] li m have "f \<le> i" by (meson not_le_imp_less)
      show ?thesis
      proof (cases "f = i")
        case True
        from c' False have "\<forall>s\<in>set ms'. mto s \<le> i \<or> i + length p \<le> mfrom s"
          by (auto simp: clearOf_def)
        moreover from p have "0 < length p" by simp
        ultimately have "\<not> ((mfrom s \<le> i \<and> i < mto s)
            \<or> (mfrom s < i + length p \<and> i + length p \<le> mto s))" if "s \<in> set ms'" for s
          using that by (metis add_lessD1 leD less_add_same_cancel1 order_less_le_trans)
        then have "\<not> overlaps i (i + length p) ms'"
          unfolding overlaps_iff by blast
        then have "acceptMatch t p i ms' = ms' @ [?S]"
          by (simp add: acceptMatch_def matchOf_def)
        with True show ?thesis by simp
      next
        case False
        with \<open>f \<le> i\<close> have "f < i" by simp
        with regexExec_Some(3)[OF e] iso have fi: "f + length p \<le> i" by fastforce
        then have "mto (matchOf t p f) \<le> i" by (simp add: matchOf_def)
        with c' have "clearOf t p i (acceptMatch t p f ms')"
          using acceptMatch_cases[of t p f ms'] by (auto simp: clearOf_def)
        with fi show ?thesis by simp
      qed
    qed
  qed
  then obtain li' where "?I li' r" "regexExec t p li' = None" using r by auto
  with regexExec_None[of t p li' i] m show ?thesis by auto
qed

lemma phrasesLoop_finds:
  assumes "sorted_wrt (\<lambda>a b. length b \<le> length a) ps" "[] \<notin> set ps" "p \<in> set ps"
    and "matchesAt t p i"
    and "\<forall>q\<in>set ps. \<forall>j. length p \<le> length q \<and> matchesAt t q j \<longrightarrow>
           (j = i \<and> length q = length p) \<or> j + length q \<le> i \<or> i + length p \<le> j"
    and "clearOf t p i ms" "phrasesLoop t ps ms = Some r"
  shows "matchOf t p i \<in> set r"
  using assms
proof (induction ps arbitrary: ms)
  case Nil
  then show ?case by simp
next
  case (Cons q qs)
  from Cons.prems(7) obtain r1 where r1: "execLoop t q 0 ms = Some r1" "phrasesLoop t qs r1 = Some r"
    by (auto split: option.splits)
  from Cons.prems(2) have q: "q \<noteq> []" and qs: "[] \<notin> set qs" by auto
  show ?case
  proof (cases "q = p")
    case True
    from Cons.prems(5) True
    have "\<forall>j. matchesAt t p j \<longrightarrow>
            (j = i \<and> length p = length p) \<or> j + length p \<le> i \<or> i + length p \<le> j"
      by auto
    from execLoop_finds[OF _ Cons.prems(4) this Cons.prems(6)] r1(1) q True
    have "matchOf t p i \<in> set r1" by auto
    with phrasesLoop_subset[OF qs r1(2)] show ?thesis by auto
  next
    case False
    with Cons.prems(3) have pq: "p \<in> set qs" by auto
    with Cons.prems(1) have len: "length p \<le> length q" by auto
    with Cons.prems(5)
    have "\<forall>j. matchesAt t q j \<longrightarrow>
            (j = i \<and> length q = length p) \<or> j + length q \<le> i \<or> i + length p \<le> j"
      by auto
    from execLoop_clearOf[OF q this Cons.prems(6) r1(1)] have "clearOf t p i r1" .
    moreover from Cons.prems(1) have "sorted_wrt (\<lambda>a b. length b \<le> length a) qs" by simp
    moreover from Cons.prems(5)
    have "\<forall>q\<in>set qs. \<forall>j. length p \<le> length q \<and> matchesAt t q j \<longrightarrow>
           (j = i \<and> length q = length p) \<or> j + length q \<le> i \<or> i + length p \<le> j"
      by auto
    ultimately show ?thesis
      using Cons.IH[of r1] qs pq Cons.prems(4) r1(2) by blast
  qed
qed

text \<open>
  Claim C3, amended. Let the phrase list hold no empty string, and let a phrase \<open>p\<close> of it
  occur at the index \<open>i\<close> of the text so that no occurrence of a phrase of the list that
  is at least as long as \<open>p\<close> shares a character with this one, except an occurrence of the
  same length at \<open>i\<close> itself. Then \<open>findPhrases\<close> returns the match of \<open>p\<close> at \<open>i\<close>, and no
  other match it returns shares a character with it: no match of a shorter phrase inside
  it is returned. The hypotheses speak of the set of phrases only, so this holds for every
  order of the list.
\<close>

theorem findPhrases_longer_wins:
  assumes "[] \<notin> set P" "p \<in> set P" "matchesAt t p i"
    and "\<forall>q\<in>set P. \<forall>j. length p \<le> length q \<and> matchesAt t q j \<longrightarrow>
           (j = i \<and> length q = length p) \<or> j + length q \<le> i \<or> i + length p \<le> j"
  shows "\<exists>r. findPhrases t P = Some r \<and> matchOf t p i \<in> set r
           \<and> (\<forall>s\<in>set r. s \<noteq> matchOf t p i \<longrightarrow> mto s \<le> i \<or> i + length p \<le> mfrom s)"
proof -
  let ?ps = "sortByLengthDesc P"
  have "scanInv t P n []" for n by (simp add: scanInv_def)
  with phrasesLoop_scanInv[of ?ps P t "[]"] sortByLengthDesc_props[of P] assms(1)
  obtain r where r: "phrasesLoop t ?ps [] = Some r" "scanInv t P 0 r"
    by auto
  have "clearOf t p i []" by (simp add: clearOf_def)
  from phrasesLoop_finds[OF sortByLengthDesc_props(1) _ _ assms(3) _ this r(1)]
    assms sortByLengthDesc_props(2)[of P]
  have S: "matchOf t p i \<in> set r" by auto
  have f: "findPhrases t P = Some (sort_key mfrom r)" using r(1) by (simp add: findPhrases_def)
  have "mto s \<le> i \<or> i + length p \<le> mfrom s" if "s \<in> set r" "s \<noteq> matchOf t p i" for s
  proof -
    from r(2) S that have "disjointSpans s (matchOf t p i)" by (auto simp: scanInv_def)
    then show ?thesis by (auto simp: disjointSpans_def matchOf_def)
  qed
  with S f show ?thesis by auto
qed


text \<open>With the phrases \<open>foo\<close> and \<open>foo bar\<close>, in both orders, the text \<open>see foo bar now\<close> has
  exactly one match, \<open>foo bar\<close> from 4 to 11.\<close>

theorem findPhrases_longer_wins_witness:
  "[] \<notin> set [''foo'', ''foo bar''] \<and> ''foo bar'' \<in> set [''foo'', ''foo bar'']
   \<and> matchesAt ''see foo bar now'' ''foo bar'' 4
   \<and> findPhrases ''see foo bar now'' [''foo'', ''foo bar''] = Some [matchOf ''see foo bar now'' ''foo bar'' 4]
   \<and> findPhrases ''see foo bar now'' [''foo bar'', ''foo''] = Some [matchOf ''see foo bar now'' ''foo bar'' 4]
   \<and> matchOf ''see foo bar now'' ''foo bar'' 4 = \<lparr>mphrase = ''foo bar'', mfrom = 4, mto = 11\<rparr>
   \<and> (\<exists>r. findPhrases ''see foo bar now'' [''foo'', ''foo bar''] = Some r
          \<and> matchOf ''see foo bar now'' ''foo bar'' 4 \<in> set r
          \<and> (\<forall>s\<in>set r. s \<noteq> matchOf ''see foo bar now'' ''foo bar'' 4
                \<longrightarrow> mto s \<le> 4 \<or> 4 + length ''foo bar'' \<le> mfrom s))"
proof -
  have a: "[] \<notin> set [''foo'', ''foo bar'']" by simp
  have b: "''foo bar'' \<in> set [''foo'', ''foo bar'']" by simp
  have c: "matchesAt ''see foo bar now'' ''foo bar'' 4" by code_simp
  have e: "\<forall>j\<in>set [0 ..< 9]. \<not> matchesAt ''see foo bar now'' ''foo bar'' j \<or> j = 4"
    by code_simp
  have only: "j = 4" if "matchesAt ''see foo bar now'' ''foo bar'' j" for j
  proof -
    from that have "j + length ''foo bar'' \<le> length ''see foo bar now''"
      by (simp only: matchesAt_def)
    then have "j \<in> set [0 ..< 9]" by simp
    with e that show ?thesis by blast
  qed
  have d: "\<forall>q\<in>set [''foo'', ''foo bar'']. \<forall>j.
      length ''foo bar'' \<le> length q \<and> matchesAt ''see foo bar now'' q j \<longrightarrow>
      (j = 4 \<and> length q = length ''foo bar'') \<or> j + length q \<le> 4
      \<or> 4 + length ''foo bar'' \<le> j"
    using only by auto
  have f1: "findPhrases ''see foo bar now'' [''foo'', ''foo bar'']
      = Some [matchOf ''see foo bar now'' ''foo bar'' 4]" by code_simp
  have f2: "findPhrases ''see foo bar now'' [''foo bar'', ''foo'']
      = Some [matchOf ''see foo bar now'' ''foo bar'' 4]" by code_simp
  have g: "matchOf ''see foo bar now'' ''foo bar'' 4 = \<lparr>mphrase = ''foo bar'', mfrom = 4, mto = 11\<rparr>"
    by code_simp
  from findPhrases_longer_wins [OF a b c d] a b c f1 f2 g show ?thesis by blast
qed

text \<open>
  Claim C3, as the claim states it: wherever the shorter phrase occurs inside an occurrence
  of the longer one, the span of the longer one would be returned and that of the shorter
  one not. In the text \<open>a a a\<close> the phrase \<open>a a\<close> occurs at 0 and at 2, and the scan, which
  goes on at the end of each match, takes the first occurrence only; the phrase \<open>a\<close>
  occurs at 4, inside the second occurrence, and its span is returned while the span from
  2 to 5 is not, in both orders of the list.
\<close>

theorem overlapping_occurrence_counterexample:
  "matchesAt ''a a a'' ''a a'' 2 \<and> matchesAt ''a a a'' ''a'' 4
   \<and> findPhrases ''a a a'' [''a a'', ''a'']
       = Some [\<lparr>mphrase = ''a a'', mfrom = 0, mto = 3\<rparr>, \<lparr>mphrase = ''a'', mfrom = 4, mto = 5\<rparr>]
   \<and> findPhrases ''a a a'' [''a'', ''a a'']
       = Some [\<lparr>mphrase = ''a a'', mfrom = 0, mto = 3\<rparr>, \<lparr>mphrase = ''a'', mfrom = 4, mto = 5\<rparr>]"
proof -
  have "matchesAt ''a a a'' ''a a'' 2" by code_simp
  moreover have "matchesAt ''a a a'' ''a'' 4" by code_simp
  moreover have "findPhrases ''a a a'' [''a a'', ''a'']
       = Some [\<lparr>mphrase = ''a a'', mfrom = 0, mto = 3\<rparr>, \<lparr>mphrase = ''a'', mfrom = 4, mto = 5\<rparr>]"
    by code_simp
  moreover have "findPhrases ''a a a'' [''a'', ''a a'']
       = Some [\<lparr>mphrase = ''a a'', mfrom = 0, mto = 3\<rparr>, \<lparr>mphrase = ''a'', mfrom = 4, mto = 5\<rparr>]"
    by code_simp
  ultimately show ?thesis by blast
qed

section \<open>The cache under removal\<close>


lemma entries_mem:
  "e \<in> set (entries m k) \<Longrightarrow> \<exists>vs. map_of m k = Some vs \<and> e \<in> set vs"
  by (cases "map_of m k") (auto simp: entries_def)

lemma entries_Some: "map_of m k = Some vs \<Longrightarrow> entries m k = vs"
  by (simp add: entries_def)

lemma map_of_pushAt: "map_of (pushAt k v m) = (map_of m)(k \<mapsto> entries m k @ [v])"
  by (auto simp: pushAt_def entries_def update_conv' Let_def fun_eq_iff split: option.splits)

lemma distinct_pushAt: "distinct (map fst m) \<Longrightarrow> distinct (map fst (pushAt k v m))"
  by (simp add: pushAt_def distinct_update Let_def split: option.splits)

lemma map_of_fold_pushAt:
  "map_of (fold (\<lambda>k m. pushAt k d m) ks m) k =
     (if k \<in> set ks then Some (entries m k @ replicate (count_list ks k) d) else map_of m k)"
proof (induction ks arbitrary: m)
  case Nil
  then show ?case by simp
next
  case (Cons a ks)
  show ?case
    by (simp add: Cons.IH map_of_pushAt entries_def replicate_app_Cons_same)
qed

lemma distinct_fold_pushAt:
  "distinct (map fst m) \<Longrightarrow> distinct (map fst (fold (\<lambda>k m. pushAt k d m) ks m))"
  by (induction ks arbitrary: m) (simp_all add: distinct_pushAt)

lemma addToCache_definitions:
  "definitions (addToCache d c) = fold (\<lambda>k m. pushAt k d m) (keysOf d) (definitions c)"
  by (simp add: addToCache_def keysOf_def Let_def fold_map comp_def)

lemma addToCache_fileIndex:
  "fileIndex (addToCache d c) = pushAt (sourceFile d) (phrase d) (fileIndex c)"
  by (simp add: addToCache_def Let_def)

lemma map_of_addToCache:
  "map_of (definitions (addToCache d c)) k =
     (if k \<in> set (keysOf d)
      then Some (entries (definitions c) k @ replicate (count_list (keysOf d) k) d)
      else map_of (definitions c) k)"
  by (simp only: addToCache_definitions map_of_fold_pushAt)

lemma count_list_pos: "k \<in> set ks \<Longrightarrow> 0 < count_list ks k"
  by (induction ks) auto

lemma entries_addToCache:
  "set (entries (definitions (addToCache d c)) k) =
     set (entries (definitions c) k) \<union> (if k \<in> set (keysOf d) then {d} else {})"
proof (cases "k \<in> set (keysOf d)")
  case True
  from count_list_pos[OF True] have "set (replicate (count_list (keysOf d) k) d) = {d}" by simp
  with True show ?thesis by (simp add: entries_def map_of_addToCache)
next
  case False
  then show ?thesis by (simp add: entries_def map_of_addToCache)
qed

lemma cacheInv_addToCache:
  assumes "cacheInv c"
  shows "cacheInv (addToCache d c)"
proof -
  let ?c = "addToCache d c"
  have fi: "map_of (fileIndex ?c) =
      (map_of (fileIndex c))(sourceFile d \<mapsto> entries (fileIndex c) (sourceFile d) @ [phrase d])"
    by (simp add: addToCache_fileIndex map_of_pushAt)
  have d1: "distinct (map fst (definitions ?c))"
    using assms by (simp add: addToCache_definitions distinct_fold_pushAt cacheInv_def)
  have d2: "distinct (map fst (fileIndex ?c))"
    using assms by (simp add: addToCache_fileIndex distinct_pushAt cacheInv_def)
  have i3: "ds \<noteq> [] \<and> (\<forall>e\<in>set ds. map_of (fileIndex ?c) (sourceFile e) \<noteq> None)"
    if "map_of (definitions ?c) k = Some ds" for k ds
  proof (cases "k \<in> set (keysOf d)")
    case True
    with that have ds: "ds = entries (definitions c) k @ replicate (count_list (keysOf d) k) d"
      by (simp add: map_of_addToCache)
    from count_list_pos[OF True] have "ds \<noteq> []" unfolding ds by simp
    moreover have "map_of (fileIndex ?c) (sourceFile e) \<noteq> None" if "e \<in> set ds" for e
    proof (cases "e = d")
      case True
      then show ?thesis by (simp add: fi)
    next
      case False
      with that ds have "e \<in> set (entries (definitions c) k)" by auto
      from entries_mem[OF this]
      obtain ds' where "map_of (definitions c) k = Some ds'" "e \<in> set ds'"
        by blast
      with assms have "map_of (fileIndex c) (sourceFile e) \<noteq> None"
        unfolding cacheInv_def by blast
      then show ?thesis by (simp add: fi)
    qed
    ultimately show ?thesis by blast
  next
    case False
    with that have "map_of (definitions c) k = Some ds" by (simp add: map_of_addToCache)
    with assms have "ds \<noteq> []" "\<forall>e\<in>set ds. map_of (fileIndex c) (sourceFile e) \<noteq> None"
      unfolding cacheInv_def by blast+
    then show ?thesis by (auto simp: fi)
  qed
  have i4: "\<exists>ds e. map_of (definitions ?c) (toLowerCase ph) = Some ds
                \<and> e \<in> set ds \<and> phrase e = ph \<and> sourceFile e = f"
    if f: "map_of (fileIndex ?c) f = Some phs" and ph: "ph \<in> set phs" for f phs ph
  proof -
    have mono: "\<exists>ds'. map_of (definitions ?c) k = Some ds' \<and> set ds \<subseteq> set ds'"
      if "map_of (definitions c) k = Some ds" for k ds
      using that by (auto simp: map_of_addToCache entries_def)
    have old: ?thesis if "map_of (fileIndex c) f = Some phs'" "ph \<in> set phs'" for phs'
    proof -
      from assms that obtain ds e where
        "map_of (definitions c) (toLowerCase ph) = Some ds" "e \<in> set ds" "phrase e = ph"
        "sourceFile e = f"
        unfolding cacheInv_def by blast
      with mono[OF this(1)] show ?thesis by blast
    qed
    show ?thesis
    proof (cases "f = sourceFile d")
      case False
      with f have "map_of (fileIndex c) f = Some phs" by (simp add: fi)
      from old[OF this ph] show ?thesis .
    next
      case True
      with f have phs: "phs = entries (fileIndex c) f @ [phrase d]" by (simp add: fi)
      show ?thesis
      proof (cases "ph \<in> set (entries (fileIndex c) f)")
        case True
        from entries_mem[OF this]
        obtain phs' where "map_of (fileIndex c) f = Some phs'" "ph \<in> set phs'"
          by blast
        from old[OF this] show ?thesis .
      next
        case False
        with ph phs have e: "ph = phrase d" by auto
        have "toLowerCase ph \<in> set (keysOf d)" by (simp add: keysOf_def e)
        then have "d \<in> set (entries (definitions ?c) (toLowerCase ph))"
          by (simp add: entries_addToCache)
        from entries_mem[OF this] obtain ds where
          "map_of (definitions ?c) (toLowerCase ph) = Some ds" "d \<in> set ds" by blast
        with e True show ?thesis by blast
      qed
    qed
  qed
  from d1 d2 i3 i4 show ?thesis unfolding cacheInv_def by blast
qed


lemma map_of_fold_update:
  assumes "distinct (map fst xs)"
  shows "map_of (fold (\<lambda>(k, ds) m. AList.update k (g ds) m) xs m) k =
     (case map_of xs k of Some ds \<Rightarrow> Some (g ds) | None \<Rightarrow> map_of m k)"
  using assms
proof (induction xs arbitrary: m)
  case Nil
  then show ?case by simp
next
  case (Cons x xs)
  obtain k0 ds0 where x: "x = (k0, ds0)" by (cases x)
  from Cons.prems x have n: "map_of xs k0 = None" "distinct (map fst xs)"
    by (auto simp: map_of_eq_None_iff)
  show ?case
    using n by (auto simp: x Cons.IH update_conv' split: option.splits)
qed

lemma keys_fold_update:
  assumes "fst ` set xs \<subseteq> fst ` set m"
  shows "map fst (fold (\<lambda>(k, ds) m. AList.update k (g ds) m) xs m) = map fst m"
  using assms
proof (induction xs arbitrary: m)
  case Nil
  then show ?case by simp
next
  case (Cons x xs)
  obtain k0 ds0 where x: "x = (k0, ds0)" by (cases x)
  from Cons.prems x have k: "map fst (AList.update k0 (g ds0) m) = map fst m"
    by (auto simp: update_keys)
  then have "fst ` set (AList.update k0 (g ds0) m) = fst ` set m"
    by (metis set_map)
  with Cons.prems have "fst ` set xs \<subseteq> fst ` set (AList.update k0 (g ds0) m)" by simp
  from Cons.IH[OF this] k show ?case by (simp add: x)
qed

lemma map_of_fold_delete:
  "map_of (fold (\<lambda>(k, ds) m. if P ds then AList.delete k m else m) xs m) k =
     (if \<exists>ds. (k, ds) \<in> set xs \<and> P ds then None else map_of m k)"
proof (induction xs arbitrary: m)
  case Nil
  then show ?case by simp
next
  case (Cons x xs)
  obtain k0 ds0 where x: "x = (k0, ds0)" by (cases x)
  show ?case by (auto simp: x Cons.IH delete_conv')
qed

lemma distinct_fold_delete:
  "distinct (map fst m) \<Longrightarrow>
   distinct (map fst (fold (\<lambda>(k, ds) m. if P ds then AList.delete k m else m) xs m))"
proof (induction xs arbitrary: m)
  case Nil
  then show ?case by simp
next
  case (Cons x xs)
  obtain k0 ds0 where x: "x = (k0, ds0)" by (cases x)
  from Cons.prems show ?case by (simp add: x Cons.IH distinct_delete)
qed

text \<open>The two maps after \<open>removeFromCache\<close>, key by key.\<close>

lemma removeFromCache_unindexed:
  "map_of (fileIndex c) p = None \<Longrightarrow> removeFromCache p c = c"
  by (simp add: removeFromCache_def)

lemma map_of_removeFromCache:
  assumes "distinct (map fst (definitions c))" "map_of (fileIndex c) p \<noteq> None"
  shows "map_of (definitions (removeFromCache p c)) k =
     (case map_of (definitions c) k of
        None \<Rightarrow> None
      | Some ds \<Rightarrow> if filter (\<lambda>d. sourceFile d \<noteq> p) ds = [] then None
                  else Some (filter (\<lambda>d. sourceFile d \<noteq> p) ds))"
    and "distinct (map fst (definitions (removeFromCache p c)))"
proof -
  let ?g = "filter (\<lambda>d. sourceFile d \<noteq> p)"
  define defs1 where
    "defs1 = fold (\<lambda>(key, defs) m. AList.update key (?g defs) m) (definitions c) (definitions c)"
  define defs2 where
    "defs2 = fold (\<lambda>(key, defs) m. if length defs = 0 then AList.delete key m else m) defs1 defs1"
  from assms(2) have r: "definitions (removeFromCache p c) = defs2"
    by (auto simp: removeFromCache_def defs1_def defs2_def Let_def)
  have m1: "map_of defs1 k = (case map_of (definitions c) k of Some ds \<Rightarrow> Some (?g ds) | None \<Rightarrow> None)"
    for k
    unfolding defs1_def map_of_fold_update[OF assms(1)] by (simp split: option.splits)
  have "map fst defs1 = map fst (definitions c)"
    unfolding defs1_def by (rule keys_fold_update) simp
  with assms(1) have d1: "distinct (map fst defs1)" by simp
  then have e: "(\<exists>ds. (k, ds) \<in> set defs1 \<and> length ds = 0) = (map_of defs1 k = Some [])" for k
    by simp
  have m2: "map_of defs2 k = (if map_of defs1 k = Some [] then None else map_of defs1 k)" for k
    unfolding defs2_def map_of_fold_delete[where P = "\<lambda>ds. length ds = 0"] e by simp
  show "map_of (definitions (removeFromCache p c)) k =
     (case map_of (definitions c) k of
        None \<Rightarrow> None
      | Some ds \<Rightarrow> if ?g ds = [] then None else Some (?g ds))"
    unfolding r m2 m1 by (simp split: option.splits)
  show "distinct (map fst (definitions (removeFromCache p c)))"
    unfolding r defs2_def using d1 by (rule distinct_fold_delete)
qed

lemma fileIndex_removeFromCache:
  "map_of (fileIndex (removeFromCache p c)) = (map_of (fileIndex c))(p := None)"
  by (cases "map_of (fileIndex c) p")
    (auto simp: removeFromCache_def Let_def delete_conv' fun_eq_iff)

lemma distinct_fileIndex_removeFromCache:
  "distinct (map fst (fileIndex c)) \<Longrightarrow> distinct (map fst (fileIndex (removeFromCache p c)))"
  by (cases "map_of (fileIndex c) p") (auto simp: removeFromCache_def Let_def distinct_delete)

lemma cacheInv_removeFromCache:
  assumes "cacheInv c"
  shows "cacheInv (removeFromCache p c)"
proof (cases "map_of (fileIndex c) p")
  case None
  with assms show ?thesis by (simp add: removeFromCache_unindexed)
next
  case (Some phs0)
  let ?c = "removeFromCache p c"
  let ?g = "filter (\<lambda>d. sourceFile d \<noteq> p)"
  from assms have dd: "distinct (map fst (definitions c))" by (simp add: cacheInv_def)
  from Some have ne: "map_of (fileIndex c) p \<noteq> None" by simp
  note m = map_of_removeFromCache[OF dd ne]
  have i3: "ds \<noteq> [] \<and> (\<forall>d\<in>set ds. map_of (fileIndex ?c) (sourceFile d) \<noteq> None)"
    if "map_of (definitions ?c) k = Some ds" for k ds
  proof -
    from that obtain ds0 where ds0: "map_of (definitions c) k = Some ds0" "ds = ?g ds0" "ds \<noteq> []"
      unfolding m(1) by (auto split: option.splits if_splits)
    from assms ds0(1) have "\<forall>d\<in>set ds0. map_of (fileIndex c) (sourceFile d) \<noteq> None"
      unfolding cacheInv_def by blast
    with ds0 show ?thesis by (auto simp: fileIndex_removeFromCache)
  qed
  have i4: "\<exists>ds d. map_of (definitions ?c) (toLowerCase ph) = Some ds
                \<and> d \<in> set ds \<and> phrase d = ph \<and> sourceFile d = f"
    if "map_of (fileIndex ?c) f = Some phs" "ph \<in> set phs" for f phs ph
  proof -
    from that(1) have f: "f \<noteq> p" "map_of (fileIndex c) f = Some phs"
      by (auto simp: fileIndex_removeFromCache split: if_splits)
    with assms that(2) obtain ds d where d:
      "map_of (definitions c) (toLowerCase ph) = Some ds" "d \<in> set ds" "phrase d = ph"
      "sourceFile d = f"
      unfolding cacheInv_def by blast
    with f(1) have "d \<in> set (?g ds)" by simp
    moreover from this have "?g ds \<noteq> []" by (auto simp: filter_empty_conv)
    ultimately have "map_of (definitions ?c) (toLowerCase ph) = Some (?g ds) \<and> d \<in> set (?g ds)"
      unfolding m(1) using d(1) by simp
    with d show ?thesis by blast
  qed
  from assms have "distinct (map fst (fileIndex ?c))"
    by (simp add: cacheInv_def distinct_fileIndex_removeFromCache)
  with m(2) i3 i4 show ?thesis unfolding cacheInv_def by blast
qed

lemma reachable_cacheInv: "reachable c \<Longrightarrow> cacheInv c"
proof (induction rule: reachable.induct)
  case init
  show ?case by (simp add: cacheInv_def emptyCache_def)
next
  case (add c d)
  then show ?case by (simp add: cacheInv_addToCache)
next
  case (remove c filePath)
  then show ?case by (simp add: cacheInv_removeFromCache)
next
  case (clear c now)
  show ?case by (simp add: cacheInv_def clearCache_def)
next
  case (stamp c now)
  have "definitions (c\<lparr>lastUpdate := now\<rparr>) = definitions c"
    "fileIndex (c\<lparr>lastUpdate := now\<rparr>) = fileIndex c" by simp_all
  then have "cacheInv (c\<lparr>lastUpdate := now\<rparr>) = cacheInv c" by (simp only: cacheInv_def)
  with stamp.IH show ?case by simp
qed

text \<open>
  Claim C1. In every cache reachable through \<open>addToCache\<close> and \<open>removeFromCache\<close> (and
  \<open>clearCache\<close>), after \<open>removeFromCache p\<close>: no list of the definitions map is empty or
  holds a definition of the file \<open>p\<close>; a key is deleted when its list becomes empty and
  keeps the rest of its list otherwise; the file index has no entry for \<open>p\<close>; and every
  phrase the file index lists for a file is the phrase of a definition of that file stored
  under the lowercased phrase.
\<close>

theorem removeFromCache_complete:
  assumes "reachable c"
  shows "(\<forall>k ds. map_of (definitions (removeFromCache p c)) k = Some ds \<longrightarrow>
            ds \<noteq> [] \<and> (\<forall>d\<in>set ds. sourceFile d \<noteq> p))
     \<and> (\<forall>k ds. map_of (definitions c) k = Some ds \<longrightarrow>
            map_of (definitions (removeFromCache p c)) k =
              (if filter (\<lambda>d. sourceFile d \<noteq> p) ds = [] then None
               else Some (filter (\<lambda>d. sourceFile d \<noteq> p) ds)))
     \<and> map_of (fileIndex (removeFromCache p c)) p = None
     \<and> (\<forall>f phs. map_of (fileIndex (removeFromCache p c)) f = Some phs \<longrightarrow>
            (\<forall>ph\<in>set phs. \<exists>ds d.
                map_of (definitions (removeFromCache p c)) (toLowerCase ph) = Some ds
                \<and> d \<in> set ds \<and> phrase d = ph \<and> sourceFile d = f))"
proof -
  let ?c = "removeFromCache p c"
  from assms have inv: "cacheInv c" by (rule reachable_cacheInv)
  from assms have "reachable ?c" by (rule reachable.remove)
  then have inv': "cacheInv ?c" by (rule reachable_cacheInv)
  have fi: "map_of (fileIndex ?c) p = None" by (simp add: fileIndex_removeFromCache)
  have a: "ds \<noteq> [] \<and> (\<forall>d\<in>set ds. sourceFile d \<noteq> p)"
    if "map_of (definitions ?c) k = Some ds" for k ds
  proof -
    from inv' that have "ds \<noteq> []" "\<forall>d\<in>set ds. map_of (fileIndex ?c) (sourceFile d) \<noteq> None"
      unfolding cacheInv_def by blast+
    with fi show ?thesis by auto
  qed
  have b: "map_of (definitions ?c) k =
      (if filter (\<lambda>d. sourceFile d \<noteq> p) ds = [] then None
       else Some (filter (\<lambda>d. sourceFile d \<noteq> p) ds))"
    if k: "map_of (definitions c) k = Some ds" for k ds
  proof (cases "map_of (fileIndex c) p")
    case None
    from inv k have "ds \<noteq> []" "\<forall>d\<in>set ds. map_of (fileIndex c) (sourceFile d) \<noteq> None"
      unfolding cacheInv_def by blast+
    with None have "filter (\<lambda>d. sourceFile d \<noteq> p) ds = ds" "ds \<noteq> []"
      by (auto simp: filter_id_conv)
    with None k show ?thesis by (simp add: removeFromCache_unindexed)
  next
    case (Some phs0)
    then have ne: "map_of (fileIndex c) p \<noteq> None" by simp
    from inv have dd: "distinct (map fst (definitions c))" by (simp add: cacheInv_def)
    from map_of_removeFromCache(1)[OF dd ne, of k] k show ?thesis by simp
  qed
  from inv' have d: "\<forall>f phs. map_of (fileIndex ?c) f = Some phs \<longrightarrow>
            (\<forall>ph\<in>set phs. \<exists>ds d.
                map_of (definitions ?c) (toLowerCase ph) = Some ds
                \<and> d \<in> set ds \<and> phrase d = ph \<and> sourceFile d = f)"
    unfolding cacheInv_def by blast
  from a b fi d show ?thesis by blast
qed

text \<open>Two files that share the key \<open>cpu\<close>; removing the first prunes its own keys and
  keeps the definition of the second under the shared key.\<close>

theorem removeFromCache_complete_witness:
  "reachable twoFileCache
   \<and> map_of (definitions twoFileCache) ''cpu'' = Some [cpuDefinition, chipDefinition]
   \<and> definitions (removeFromCache ''defs/hardware.md'' twoFileCache)
        = [(''cpu'', [chipDefinition]), (''chip'', [chipDefinition])]
   \<and> fileIndex (removeFromCache ''defs/hardware.md'' twoFileCache) = [(''defs/other.md'', [''Chip''])]
   \<and> map_of (fileIndex (removeFromCache ''defs/hardware.md'' twoFileCache)) ''defs/hardware.md'' = None"
proof -
  have r: "reachable twoFileCache"
    unfolding twoFileCache_def by (intro reachable.add reachable.init)
  have a: "map_of (definitions twoFileCache) ''cpu'' = Some [cpuDefinition, chipDefinition]"
    by code_simp
  have b: "definitions (removeFromCache ''defs/hardware.md'' twoFileCache)
        = [(''cpu'', [chipDefinition]), (''chip'', [chipDefinition])]" by code_simp
  have c: "fileIndex (removeFromCache ''defs/hardware.md'' twoFileCache)
        = [(''defs/other.md'', [''Chip''])]" by code_simp
  from removeFromCache_complete [OF r, of "''defs/hardware.md''"]
  have "map_of (fileIndex (removeFromCache ''defs/hardware.md'' twoFileCache)) ''defs/hardware.md''
      = None" by blast
  with r a b c show ?thesis by blast
qed


section \<open>Aliases and the list of all definitions\<close>






















text \<open>Which of the definitions with one pair is collected follows the order of the keys of
  the map: here the key of the alias \<open>k2\<close> comes before the key of the phrase \<open>P\<close>, and the
  definition added last is the one collected.\<close>

lemma later_definition_collected:
  "getAllDefinitions (fold addToCache [keyedFirst, plainFoo, aliasedFoo] emptyCache) None
     = [keyedFirst, aliasedFoo]"
  by code_simp

text \<open>The key of the \<open>seen\<close> set joins the path and the phrase by a colon, so two pairs
  can share a key when a path holds a colon; the later definition is then left out.\<close>

lemma seenKey_collision:
  "seenKey colonFirst = seenKey colonSecond"
  "getDefinitions (fold addToCache [colonFirst, colonSecond] emptyCache) ''c'' None = [colonSecond]"
  "getAllDefinitions (fold addToCache [colonFirst, colonSecond] emptyCache) None = [colonFirst]"
  by code_simp+

end
